theory Spec2Isabelle
  imports Complex_Main
begin

section \<open>Strings, floats and the Python environment\<close>

text \<open>
  A Python \<open>str\<close> is a sequence of Unicode code points, modelled as a list of naturals.
  ASCII literals of the source are written with \<open>ustr\<close>.
\<close>

type_synonym ustring = "nat list"

definition ustr :: "string \<Rightarrow> ustring" where
  "ustr s = map of_char s"

text \<open>
  The floats the parser can build are \<open>0.0\<close> and \<open>float(m)\<close> for a match \<open>m\<close> of
  \<open>PRICE_RE\<close> (digits, an optional fraction): a finite double, or \<open>inf\<close> for an
  overlong literal. There is no NaN and no negative infinity.
\<close>

datatype pyfloat = Fin real | PInf


fun float_le0 :: "pyfloat \<Rightarrow> bool" where
  "float_le0 (Fin r) = (r \<le> 0)"
| "float_le0 PInf = False"

fun float_gt0 :: "pyfloat \<Rightarrow> bool" where
  "float_gt0 (Fin r) = (0 < r)"
| "float_gt0 PInf = True"

text \<open>
  What the source takes from Python and from the process environment, and what is
  therefore not in the repository: the Unicode tables behind \<open>str.upper\<close>,
  \<open>str.strip\<close> and the regex classes \<open>\s\<close>, \<open>\w\<close>, \<open>\d\<close>, the built-in \<open>float\<close>, and the
  configured \<open>SYMBOL_POSTFIX\<close>. They are parameters of the model.
\<close>

record pyenv =
  py_upper :: "nat \<Rightarrow> ustring"
  py_isspace :: "nat \<Rightarrow> bool"
  py_isword :: "nat \<Rightarrow> bool"
  py_isdigit :: "nat \<Rightarrow> bool"
  py_float :: "ustring \<Rightarrow> pyfloat"
  SYMBOL_POSTFIX :: ustring

definition upper :: "pyenv \<Rightarrow> ustring \<Rightarrow> ustring" where
  "upper E s = concat (map (py_upper E) s)"

definition strip :: "pyenv \<Rightarrow> ustring \<Rightarrow> ustring" where
  "strip E s = rev (dropWhile (py_isspace E) (rev (dropWhile (py_isspace E) s)))"

definition replace_char :: "nat \<Rightarrow> nat \<Rightarrow> ustring \<Rightarrow> ustring" where
  "replace_char a b s = map (\<lambda>c. if c = a then b else c) s"

definition remove_char :: "nat \<Rightarrow> ustring \<Rightarrow> ustring" where
  "remove_char a s = filter (\<lambda>c. c \<noteq> a) s"

fun starts_with :: "ustring \<Rightarrow> ustring \<Rightarrow> bool" where
  "starts_with [] s = True"
| "starts_with (p # ps) [] = False"
| "starts_with (p # ps) (c # cs) = (p = c \<and> starts_with ps cs)"

text \<open>\<open>p in s\<close> and \<open>s.find(p)\<close> of Python (\<open>-1\<close> when absent).\<close>

fun contains :: "ustring \<Rightarrow> ustring \<Rightarrow> bool" where
  "contains p [] = (p = [])"
| "contains p (c # cs) = (starts_with p (c # cs) \<or> contains p cs)"

fun find_from :: "ustring \<Rightarrow> int \<Rightarrow> ustring \<Rightarrow> int" where
  "find_from p i [] = (if p = [] then i else - 1)"
| "find_from p i (c # cs) = (if starts_with p (c # cs) then i else find_from p (i + 1) cs)"

definition find :: "ustring \<Rightarrow> ustring \<Rightarrow> int" where
  "find s p = find_from p 0 s"

section \<open>The regular expressions of the source\<close>

text \<open>
  The constructs the source's patterns use, with the backtracking semantics of Python's
  \<open>re\<close>: a match attempt yields the list of its outcomes in the order the engine tries
  them, and the first one is the match.
\<close>

datatype ccls = CUpper | CSpace | CDigit | CAny

fun in_cls :: "pyenv \<Rightarrow> ccls \<Rightarrow> nat \<Rightarrow> bool" where
  "in_cls E CUpper c = (65 \<le> c \<and> c \<le> 90)"
| "in_cls E CSpace c = py_isspace E c"
| "in_cls E CDigit c = py_isdigit E c"
| "in_cls E CAny c = True"

datatype rx =
    Lit ustring
  | WordB
  | Rep nat ccls
  | Star ccls
  | Plus ccls
  | LazyStar ccls
  | Seq rx rx
  | Opt rx
  | Grp rx

text \<open>
  A position in the subject: the character before it (if any) and the rest of the
  subject.
\<close>

type_synonym pos = "nat option \<times> ustring"

fun word_boundary :: "pyenv \<Rightarrow> pos \<Rightarrow> bool" where
  "word_boundary E (p, r) =
     ((case p of None \<Rightarrow> False | Some c \<Rightarrow> py_isword E c)
      \<noteq> (case r of [] \<Rightarrow> False | c # _ \<Rightarrow> py_isword E c))"

fun rep_n :: "(nat \<Rightarrow> bool) \<Rightarrow> nat \<Rightarrow> pos \<Rightarrow> pos list" where
  "rep_n P 0 q = [q]"
| "rep_n P (Suc n) (p, []) = []"
| "rep_n P (Suc n) (p, c # cs) = (if P c then rep_n P n (Some c, cs) else [])"

fun star_greedy :: "(nat \<Rightarrow> bool) \<Rightarrow> nat option \<Rightarrow> ustring \<Rightarrow> pos list" where
  "star_greedy P p [] = [(p, [])]"
| "star_greedy P p (c # cs) =
     (if P c then star_greedy P (Some c) cs else []) @ [(p, c # cs)]"

fun star_lazy :: "(nat \<Rightarrow> bool) \<Rightarrow> nat option \<Rightarrow> ustring \<Rightarrow> pos list" where
  "star_lazy P p [] = [(p, [])]"
| "star_lazy P p (c # cs) =
     (p, c # cs) # (if P c then star_lazy P (Some c) cs else [])"

fun plus_greedy :: "(nat \<Rightarrow> bool) \<Rightarrow> pos \<Rightarrow> pos list" where
  "plus_greedy P (p, []) = []"
| "plus_greedy P (p, c # cs) = (if P c then star_greedy P (Some c) cs else [])"

text \<open>A match state: the position and the groups captured so far, in order.\<close>

type_synonym mstate = "pos \<times> ustring list"

fun rx_match :: "pyenv \<Rightarrow> rx \<Rightarrow> mstate \<Rightarrow> mstate list" where
  "rx_match E (Lit s) ((p, r), g) =
     (if starts_with s r
      then [((if s = [] then p else Some (last s), drop (length s) r), g)]
      else [])"
| "rx_match E WordB (q, g) = (if word_boundary E q then [(q, g)] else [])"
| "rx_match E (Rep n c) (q, g) = map (\<lambda>q'. (q', g)) (rep_n (in_cls E c) n q)"
| "rx_match E (Star c) ((p, r), g) = map (\<lambda>q'. (q', g)) (star_greedy (in_cls E c) p r)"
| "rx_match E (Plus c) (q, g) = map (\<lambda>q'. (q', g)) (plus_greedy (in_cls E c) q)"
| "rx_match E (LazyStar c) ((p, r), g) = map (\<lambda>q'. (q', g)) (star_lazy (in_cls E c) p r)"
| "rx_match E (Seq a b) st = concat (map (rx_match E b) (rx_match E a st))"
| "rx_match E (Opt a) st = rx_match E a st @ [st]"
| "rx_match E (Grp a) ((p, r), g) =
     map (\<lambda>((p', r'), g'). ((p', r'), g' @ [take (length r - length r') r]))
       (rx_match E a ((p, r), g))"

text \<open>\<open>re.search\<close>: the groups of the first match at the leftmost position that has one.\<close>

fun search_from :: "pyenv \<Rightarrow> rx \<Rightarrow> nat option \<Rightarrow> ustring \<Rightarrow> ustring list option" where
  "search_from E r p [] =
     (case rx_match E r ((p, []), []) of m # _ \<Rightarrow> Some (snd m) | [] \<Rightarrow> None)"
| "search_from E r p (c # cs) =
     (case rx_match E r ((p, c # cs), []) of
        m # _ \<Rightarrow> Some (snd m)
      | [] \<Rightarrow> search_from E r (Some c) cs)"

definition re_search :: "pyenv \<Rightarrow> rx \<Rightarrow> ustring \<Rightarrow> ustring list option" where
  "re_search E r s = search_from E r None s"

fun cat :: "rx list \<Rightarrow> rx" where
  "cat [] = Lit []"
| "cat [r] = r"
| "cat (r # rs) = Seq r (cat rs)"

text \<open>\<open>PRICE_RE = (?:\d+(?:\.\d+)?)\<close>\<close>

definition PRICE_RE :: rx where
  "PRICE_RE = Seq (Plus CDigit) (Opt (Seq (Lit (ustr ''.'')) (Plus CDigit)))"

text \<open>\<open>\b([A-Z]{3})\s*/\s*([A-Z]{3})\b\<close>\<close>

definition RE_PAIR :: rx where
  "RE_PAIR = cat [WordB, Grp (Rep 3 CUpper), Star CSpace, Lit (ustr ''/''), Star CSpace,
                  Grp (Rep 3 CUpper), WordB]"

text \<open>\<open>\b([A-Z]{6})\b\<close>\<close>

definition RE_SIX :: rx where
  "RE_SIX = cat [WordB, Grp (Rep 6 CUpper), WordB]"

text \<open>\<open>PREZZO\s+(PRICE_RE)\<close>\<close>

definition RE_ENTRY :: rx where
  "RE_ENTRY = cat [Lit (ustr ''PREZZO''), Plus CSpace, Grp PRICE_RE]"

text \<open>\<open>STOP\s*LOSS.*?\b(PRICE_RE)\b\<close> with \<open>re.DOTALL\<close>\<close>

definition RE_SL :: rx where
  "RE_SL = cat [Lit (ustr ''STOP''), Star CSpace, Lit (ustr ''LOSS''), LazyStar CAny,
                WordB, Grp PRICE_RE, WordB]"

text \<open>\<open>TAKE\s*PROFIT.*?\b(PRICE_RE)\b\<close> with \<open>re.DOTALL\<close>\<close>

definition RE_TP :: rx where
  "RE_TP = cat [Lit (ustr ''TAKE''), Star CSpace, Lit (ustr ''PROFIT''), LazyStar CAny,
                WordB, Grp PRICE_RE, WordB]"

text \<open>\<open>MODIFICARE\s+IL\s+PREZZO\s+DI\s+INGRESSO\s+DA\s+(PRICE_RE)\s+A\s+(PRICE_RE)\<close>\<close>

definition RE_UPDATE :: rx where
  "RE_UPDATE = cat [Lit (ustr ''MODIFICARE''), Plus CSpace, Lit (ustr ''IL''), Plus CSpace,
                    Lit (ustr ''PREZZO''), Plus CSpace, Lit (ustr ''DI''), Plus CSpace,
                    Lit (ustr ''INGRESSO''), Plus CSpace, Lit (ustr ''DA''), Plus CSpace,
                    Grp PRICE_RE, Plus CSpace, Lit (ustr ''A''), Plus CSpace, Grp PRICE_RE]"

text \<open>\<open>\bANNULLARE\b\<close>\<close>

definition RE_CANCEL :: rx where
  "RE_CANCEL = cat [WordB, Lit (ustr ''ANNULLARE''), WordB]"

text \<open>\<open>\(\s*(PRICE_RE)\s*\)\<close>\<close>

definition RE_PAREN :: rx where
  "RE_PAREN = cat [Lit (ustr ''(''), Star CSpace, Grp PRICE_RE, Star CSpace, Lit (ustr '')'')]"

section \<open>Models\<close>

text \<open>
  The \<open>Command\<close> dataclass; its field \<open>type\<close> is \<open>otype\<close> here, and \<open>meta\<close> holds the
  message id and the kind.
\<close>

datatype action = OPEN | UPDATE | CANCEL

datatype order_type = MARKET | BUY_LIMIT | SELL_LIMIT | BUY_STOP | SELL_STOP

datatype side = BUY | SELL

record command =
  cmd_id :: ustring
  action :: action
  symbol :: ustring
  otype :: order_type
  side :: side
  entry :: pyfloat
  sl :: pyfloat
  tp :: pyfloat
  old_entry :: pyfloat
  order_id :: ustring
  meta :: "(int \<times> ustring) option"

text \<open>
  The message object of the transport: \<open>msg.id\<close>, \<open>msg.message\<close> (the text, possibly
  \<open>None\<close>) and \<open>msg.reply_to_msg_id\<close>.
\<close>

record message =
  msg_id :: int
  msg_text :: "ustring option"
  reply_to_msg_id :: "int option"

text \<open>\<open>str(n)\<close> for an integer: its decimal digits, with a minus sign when negative.\<close>

fun str_nat :: "nat \<Rightarrow> ustring" where
  "str_nat n = (if n < 10 then [48 + n] else str_nat (n div 10) @ [48 + n mod 10])"

declare str_nat.simps [simp del]

definition str_int :: "int \<Rightarrow> ustring" where
  "str_int i = (if i < 0 then 45 # str_nat (nat (- i)) else str_nat (nat i))"

section \<open>Parsing helpers\<close>

text \<open>
  For the groups \<open>g\<close> of a match, \<open>g ! k\<close> is \<open>m.group(k + 1)\<close>; a match of a pattern of the
  source has all the groups of the pattern.
\<close>

definition normalize_symbol :: "pyenv \<Rightarrow> ustring \<Rightarrow> ustring" where
  "normalize_symbol E raw =
     (let s = upper E (strip E raw);
          s = remove_char 32 s;
          s = remove_char 47 s
      in s @ SYMBOL_POSTFIX E)"

definition extract_symbol :: "pyenv \<Rightarrow> ustring \<Rightarrow> ustring option" where
  "extract_symbol E text =
     (case re_search E RE_PAIR (upper E text) of
        Some g \<Rightarrow> Some (normalize_symbol E (g ! 0 @ g ! 1))
      | None \<Rightarrow>
          (case re_search E RE_SIX (upper E text) of
             Some g \<Rightarrow> Some (normalize_symbol E (g ! 0))
           | None \<Rightarrow> None))"

definition extract_side :: "pyenv \<Rightarrow> ustring \<Rightarrow> side option" where
  "extract_side E text =
     (let t = upper E text in
      if contains (ustr ''BUY'') t \<and> \<not> contains (ustr ''SELL'') t then Some BUY
      else if contains (ustr ''SELL'') t \<and> \<not> contains (ustr ''BUY'') t then Some SELL
      else
        (let i_buy = find t (ustr ''BUY''); i_sell = find t (ustr ''SELL'') in
         if i_buy \<noteq> - 1 \<and> i_sell \<noteq> - 1
         then (if i_buy < i_sell then Some BUY else Some SELL)
         else None))"

definition extract_pending_type :: "pyenv \<Rightarrow> ustring \<Rightarrow> order_type option" where
  "extract_pending_type E text =
     (let t = upper E text in
      if contains (ustr ''BUY LIMIT'') t then Some BUY_LIMIT
      else if contains (ustr ''SELL LIMIT'') t then Some SELL_LIMIT
      else if contains (ustr ''BUY STOP'') t then Some BUY_STOP
      else if contains (ustr ''SELL STOP'') t then Some SELL_STOP
      else None)"

text \<open>The dict that \<open>extract_entry_sl_tp\<close> returns.\<close>

record price_values =
  v_entry :: pyfloat
  v_sl :: pyfloat
  v_tp :: pyfloat

definition labeled :: "pyenv \<Rightarrow> rx \<Rightarrow> ustring \<Rightarrow> pyfloat" where
  "labeled E r t = (case re_search E r t of Some g \<Rightarrow> py_float E (g ! 0) | None \<Rightarrow> Fin 0)"

definition extract_entry_sl_tp :: "pyenv \<Rightarrow> ustring \<Rightarrow> price_values" where
  "extract_entry_sl_tp E text =
     (let t = upper E text in
      \<lparr> v_entry = labeled E RE_ENTRY t, v_sl = labeled E RE_SL t, v_tp = labeled E RE_TP t \<rparr>)"

text \<open>\<open>parse_update\<close> returns \<open>(old_entry, new_entry)\<close>.\<close>

definition parse_update :: "pyenv \<Rightarrow> ustring \<Rightarrow> (pyfloat \<times> pyfloat) option" where
  "parse_update E text =
     (let t = replace_char 44 46 (upper E text) in
      case re_search E RE_UPDATE t of
        None \<Rightarrow> None
      | Some g \<Rightarrow> Some (py_float E (g ! 0), py_float E (g ! 1)))"

text \<open>The dict that \<open>parse_cancel\<close> returns.\<close>

record cancel_fields =
  c_symbol :: ustring
  c_type :: order_type
  c_side :: side
  c_entry :: pyfloat

text \<open>Truth value of an optional string: \<open>None\<close> and the empty string are false.\<close>

fun str_truthy :: "ustring option \<Rightarrow> bool" where
  "str_truthy None = False"
| "str_truthy (Some s) = (s \<noteq> [])"

definition parse_cancel :: "pyenv \<Rightarrow> ustring \<Rightarrow> cancel_fields option" where
  "parse_cancel E text =
     (let t = replace_char 44 46 (upper E text) in
      case re_search E RE_CANCEL t of
        None \<Rightarrow> None
      | Some _ \<Rightarrow>
          (let ptype = extract_pending_type E t;
               sd = extract_side E t;
               sym = extract_symbol E t;
               entry = labeled E RE_PAREN t
           in case (ptype, sd, sym) of
                (Some pt, Some s, Some y) \<Rightarrow>
                  if y \<noteq> [] then Some \<lparr> c_symbol = y, c_type = pt, c_side = s, c_entry = entry \<rparr>
                  else None
              | _ \<Rightarrow> None))"

definition is_market_direct :: "pyenv \<Rightarrow> ustring \<Rightarrow> bool" where
  "is_market_direct E text =
     (let t = upper E text in
      (contains (ustr ''DIRETTA'') t \<and> contains (ustr ''MERCATO'') t)
      \<or> contains (ustr ''ESECUZIONE A MERCATO'') t)"

section \<open>Main parser\<close>

definition tg_id :: "int \<Rightarrow> ustring" where
  "tg_id i = ustr ''tg_'' @ str_int i"

definition mk_command ::
  "int \<Rightarrow> action \<Rightarrow> ustring \<Rightarrow> order_type \<Rightarrow> side \<Rightarrow> pyfloat \<Rightarrow> pyfloat \<Rightarrow> pyfloat \<Rightarrow> pyfloat
     \<Rightarrow> string \<Rightarrow> command" where
  "mk_command i a y ty s e l p oe kind =
     \<lparr> cmd_id = tg_id i, action = a, symbol = y, otype = ty, side = s, entry = e, sl = l,
       tp = p, old_entry = oe, order_id = [], meta = Some (i, ustr kind) \<rparr>"

text \<open>The body of \<open>parse_message\<close> after the text has been normalised to \<open>t\<close>.\<close>

definition parse_text :: "pyenv \<Rightarrow> int \<Rightarrow> ustring \<Rightarrow> command option" where
  "parse_text E i t =
     (case parse_cancel E t of
        Some c \<Rightarrow>
          Some (mk_command i CANCEL (c_symbol c) (c_type c) (c_side c) (c_entry c)
                  (Fin 0) (Fin 0) (Fin 0) ''cancel'')
      | None \<Rightarrow>
     (case parse_update E t of
        Some (old_e, new_e) \<Rightarrow>
          (let ptype = (case extract_pending_type E t of Some pt \<Rightarrow> pt | None \<Rightarrow> SELL_LIMIT);
               sd = (case extract_side E t of
                       Some s \<Rightarrow> s
                     | None \<Rightarrow> if contains (ustr ''SELL'') t then SELL else BUY);
               sym = extract_symbol E t
           in if \<not> str_truthy sym then None
              else Some (mk_command i UPDATE (the sym) ptype sd new_e (Fin 0) (Fin 0) old_e
                           ''update''))
      | None \<Rightarrow>
          (let sym = extract_symbol E t in
           if \<not> str_truthy sym then None
           else
             (let ptype = extract_pending_type E t in
              case extract_side E t of
                None \<Rightarrow> None
              | Some sd \<Rightarrow>
                  (let vals = extract_entry_sl_tp E t in
                   if is_market_direct E t
                      \<or> (ptype = None \<and> contains (ustr ''A MERCATO'') t)
                   then Some (mk_command i OPEN (the sym) MARKET sd (Fin 0) (v_sl vals)
                                (v_tp vals) (Fin 0) ''market_direct'')
                   else
                     (case ptype of
                        Some pt \<Rightarrow>
                          if float_le0 (v_entry vals) then None
                          else Some (mk_command i OPEN (the sym) pt sd (v_entry vals)
                                       (v_sl vals) (v_tp vals) (Fin 0) ''pending'')
                      | None \<Rightarrow> None))))))"

definition parse_message :: "pyenv \<Rightarrow> message \<Rightarrow> command option" where
  "parse_message E msg =
     (case msg_text msg of
        None \<Rightarrow> None
      | Some m \<Rightarrow>
          if m = [] then None
          else
            (let raw = strip E m in
             if raw = [] then None
             else
               (let text = replace_char 160 32 raw;
                    t = replace_char 44 46 (upper E text)
                in parse_text E (msg_id msg) t)))"

section \<open>State (dedupe)\<close>

text \<open>
  \<open>STATE["processed_ids"]\<close>: a Python dict from \<open>str(msg_id)\<close> to the timestamp, in
  insertion order (the order matters to the stable \<open>sorted\<close>). \<open>str\<close> is injective on
  integers, so the message id itself stands for the key.
\<close>

text \<open>
  \<open>save_state\<close> and \<open>save_db\<close> write the dicts to their files after each change; the
  files hold what the dicts hold and are not modelled apart.
\<close>

type_synonym dedup = "(int \<times> int) list"

fun dict_set :: "'k \<Rightarrow> 'v \<Rightarrow> ('k \<times> 'v) list \<Rightarrow> ('k \<times> 'v) list" where
  "dict_set k v [] = [(k, v)]"
| "dict_set k v (e # d) = (if fst e = k then (k, v) # d else e # dict_set k v d)"

definition dict_del :: "'k \<Rightarrow> ('k \<times> 'v) list \<Rightarrow> ('k \<times> 'v) list" where
  "dict_del k d = filter (\<lambda>e. fst e \<noteq> k) d"


definition mark_processed :: "int \<Rightarrow> int \<Rightarrow> dedup \<Rightarrow> dedup" where
  "mark_processed i ts d =
     (let d1 = dict_set i ts d in
      if length d1 > 20000
      then (let items = sort_key snd d1
            in foldl (\<lambda>d' e. dict_del (fst e) d') d1 (take 2000 items))
      else d1)"

section \<open>Message-Order Database\<close>

record msg_record =
  r_order_id :: ustring
  r_msg_id :: int
  r_action :: action
  r_symbol :: ustring
  r_type :: order_type
  r_side :: side
  r_entry :: pyfloat
  r_sl :: pyfloat
  r_tp :: pyfloat
  r_timestamp :: int

record order_agg =
  o_order_id :: ustring
  first_msg_id :: int
  messages :: "int list"
  o_symbol :: ustring
  o_side :: side
  status :: ustring
  latest_action :: action
  created_at :: int
  updated_at :: int

text \<open>\<open>DB\<close>: the two tables, \<open>messages\<close> keyed by \<open>str(msg_id)\<close> and \<open>orders\<close> by order id.\<close>

record ledger =
  db_messages :: "int \<rightharpoonup> msg_record"
  db_orders :: "ustring \<rightharpoonup> order_agg"

definition empty_db :: ledger where
  "empty_db = \<lparr> db_messages = Map.empty, db_orders = Map.empty \<rparr>"

definition get_order_id_for_msg :: "ledger \<Rightarrow> int \<Rightarrow> ustring option" where
  "get_order_id_for_msg db i =
     (case db_messages db i of Some r \<Rightarrow> Some (r_order_id r) | None \<Rightarrow> None)"

text \<open>
  \<open>now n\<close> is the \<open>n\<close>-th reading of \<open>int(time.time())\<close> taken while one message is
  handled.
\<close>

definition link_message_to_order ::
  "(nat \<Rightarrow> int) \<Rightarrow> ledger \<Rightarrow> int \<Rightarrow> ustring \<Rightarrow> command \<Rightarrow> ledger" where
  "link_message_to_order now db i oid cmd =
     (let msgs = (db_messages db)(i \<mapsto>
            \<lparr> r_order_id = oid, r_msg_id = i, r_action = action cmd, r_symbol = symbol cmd,
              r_type = otype cmd, r_side = side cmd, r_entry = entry cmd, r_sl = sl cmd,
              r_tp = tp cmd, r_timestamp = now 0 \<rparr>)
      in case db_orders db oid of
           None \<Rightarrow>
             \<lparr> db_messages = msgs,
               db_orders = (db_orders db)(oid \<mapsto>
                 \<lparr> o_order_id = oid, first_msg_id = i, messages = [i], o_symbol = symbol cmd,
                   o_side = side cmd, status = ustr ''active'', latest_action = action cmd,
                   created_at = now 1, updated_at = now 2 \<rparr>) \<rparr>
         | Some ord \<Rightarrow>
             \<lparr> db_messages = msgs,
               db_orders = (db_orders db)(oid \<mapsto>
                 ord \<lparr> messages := (if i \<in> set (messages ord) then messages ord
                                     else messages ord @ [i]),
                       latest_action := action cmd, updated_at := now 1 \<rparr>) \<rparr>)"

definition get_order_summary :: "ledger \<Rightarrow> ustring \<Rightarrow> order_agg option" where
  "get_order_summary db oid = db_orders db oid"

text \<open>\<open>f"order_msg{msg.id}"\<close>\<close>

definition order_msg :: "int \<Rightarrow> ustring" where
  "order_msg i = ustr ''order_msg'' @ str_int i"

text \<open>
  The order id of a message, as the handler and the test mode both resolve it; a reply
  target that is \<open>None\<close> or \<open>0\<close> is no reply target, and an order id that is \<open>None\<close> or empty
  is none.
\<close>

definition resolve_order_id :: "ledger \<Rightarrow> message \<Rightarrow> ustring" where
  "resolve_order_id db msg =
     (case reply_to_msg_id msg of
        Some l \<Rightarrow>
          if l \<noteq> 0
          then (case get_order_id_for_msg db l of
                  Some oid \<Rightarrow> if oid \<noteq> [] then oid else order_msg (msg_id msg)
                | None \<Rightarrow> order_msg (msg_id msg))
          else order_msg (msg_id msg)
      | None \<Rightarrow> order_msg (msg_id msg))"

text \<open>
  The linkage step of the handler: resolve the order id, stamp it on the Command, link
  the message in the database.
\<close>

definition resolve_and_link ::
  "(nat \<Rightarrow> int) \<Rightarrow> ledger \<Rightarrow> message \<Rightarrow> command \<Rightarrow> command \<times> ledger" where
  "resolve_and_link now db msg cmd =
     (let oid = resolve_order_id db msg;
          cmd' = cmd \<lparr> order_id := oid \<rparr>
      in (cmd', link_message_to_order now db (msg_id msg) oid cmd'))"

section \<open>Output writers\<close>













section \<open>The live handler\<close>

text \<open>
  The state the handler works on: the dedup table, the database, and the two output
  files. \<open>link_message_to_order\<close> reads the clock three times for a new order and twice
  for a known one, so that \<open>mark_processed\<close> gets the reading after these.
\<close>

record bot_state =
  processed_ids :: dedup
  db :: ledger
  csv_file :: "ustring list list option"
  jsonl_file :: "command list"


section \<open>A sample environment\<close>

text \<open>
  An environment that agrees with Python on ASCII text, with the source's default suffix
  \<open>-STD\<close>; it serves to run the parser on ASCII sample messages. \<open>std_float\<close> gives a
  decimal literal its exact value.
\<close>

definition digits_val :: "ustring \<Rightarrow> int" where
  "digits_val s = foldl (\<lambda>a c. 10 * a + (int c - 48)) 0 s"

definition std_float :: "ustring \<Rightarrow> pyfloat" where
  "std_float s =
     (let ip = takeWhile (\<lambda>c. c \<noteq> 46) s;
          fp = drop 1 (dropWhile (\<lambda>c. c \<noteq> 46) s)
      in Fin (real_of_int (digits_val ip) + real_of_int (digits_val fp) / 10 ^ length fp))"

definition std_env :: pyenv where
  "std_env =
     \<lparr> py_upper = (\<lambda>c. if 97 \<le> c \<and> c \<le> 122 then [c - 32] else [c]),
       py_isspace = (\<lambda>c. c \<in> {9, 10, 11, 12, 13, 28, 29, 30, 31, 32}),
       py_isword = (\<lambda>c. (48 \<le> c \<and> c \<le> 57) \<or> (65 \<le> c \<and> c \<le> 90) \<or> c = 95
                          \<or> (97 \<le> c \<and> c \<le> 122)),
       py_isdigit = (\<lambda>c. 48 \<le> c \<and> c \<le> 57),
       py_float = std_float,
       SYMBOL_POSTFIX = ustr ''-STD'' \<rparr>"

section \<open>Auxiliary notions for the statements\<close>

text \<open>
  The local \<open>t\<close> of \<open>parse_message\<close>: the stripped text with NBSP turned into a space,
  uppercased, with commas turned into periods.
\<close>

definition message_t :: "pyenv \<Rightarrow> ustring \<Rightarrow> ustring" where
  "message_t E m = replace_char 44 46 (upper E (replace_char 160 32 (strip E m)))"




text \<open>
  The two direct-market keyword patterns and the generic at-market phrase, as the OPEN
  branch of \<open>parse_message\<close> tests them.
\<close>

definition market_phrasing :: "pyenv \<Rightarrow> ustring \<Rightarrow> bool" where
  "market_phrasing E t =
     ((contains (ustr ''DIRETTA'') (upper E t) \<and> contains (ustr ''MERCATO'') (upper E t))
      \<or> contains (ustr ''ESECUZIONE A MERCATO'') (upper E t)
      \<or> (extract_pending_type E t = None \<and> contains (ustr ''A MERCATO'') t))"

text \<open>
  The message reaches the pending branch of the OPEN stage: it is neither a cancel nor an
  update, symbol and side resolve, it has no market phrasing and a pending type resolves.
\<close>

definition classified_pending_open :: "pyenv \<Rightarrow> ustring \<Rightarrow> bool" where
  "classified_pending_open E t =
     (parse_cancel E t = None \<and> parse_update E t = None \<and> str_truthy (extract_symbol E t)
      \<and> extract_side E t \<noteq> None \<and> \<not> market_phrasing E t
      \<and> extract_pending_type E t \<noteq> None)"

definition sample_msg :: "int \<Rightarrow> string \<Rightarrow> message" where
  "sample_msg i s = \<lparr> msg_id = i, msg_text = Some (ustr s), reply_to_msg_id = None \<rparr>"



text \<open>
  The ledgers the program builds: every order id was minted from a message the ledger
  holds, and every message record points at an order of the ledger.
\<close>

definition ledger_wf :: "ledger \<Rightarrow> bool" where
  "ledger_wf L =
     ((\<forall>oid ord. db_orders L oid = Some ord \<longrightarrow>
         (\<exists>i. oid = order_msg i \<and> db_messages L i \<noteq> None))
      \<and> (\<forall>i r. db_messages L i = Some r \<longrightarrow> db_orders L (r_order_id r) \<noteq> None))"




section \<open>Symbol occurrences, in the words of the spec\<close>

text \<open>The character before a position that lies \<open>xs\<close> after one preceded by \<open>p\<close>.\<close>

definition prev_after :: "nat option \<Rightarrow> ustring \<Rightarrow> nat option" where
  "prev_after p xs = (if xs = [] then p else Some (last xs))"

definition upper_letters :: "ustring \<Rightarrow> bool" where
  "upper_letters w = list_all (\<lambda>c. 65 \<le> c \<and> c \<le> 90) w"

text \<open>
  At a position (the character \<open>p\<close> before it, the text \<open>s\<close> from it on) stands a pair of
  three-letter codes \<open>a\<close> and \<open>b\<close>: \<open>a\<close>, optional whitespace, a slash, optional whitespace,
  \<open>b\<close>, with a word boundary before \<open>a\<close> and one after \<open>b\<close>.
\<close>

definition pair_at :: "pyenv \<Rightarrow> nat option \<Rightarrow> ustring \<Rightarrow> ustring \<Rightarrow> ustring \<Rightarrow> bool" where
  "pair_at E p s a b =
     (\<exists>ws1 ws2 post.
        s = a @ ws1 @ [47] @ ws2 @ b @ post
        \<and> length a = 3 \<and> upper_letters a \<and> length b = 3 \<and> upper_letters b
        \<and> list_all (py_isspace E) ws1 \<and> list_all (py_isspace E) ws2
        \<and> word_boundary E (p, s) \<and> word_boundary E (Some (last b), post))"

text \<open>At a position stands a token \<open>w\<close> of six letters between word boundaries.\<close>

definition six_at :: "pyenv \<Rightarrow> nat option \<Rightarrow> ustring \<Rightarrow> ustring \<Rightarrow> bool" where
  "six_at E p s w =
     (\<exists>post. s = w @ post \<and> length w = 6 \<and> upper_letters w
        \<and> word_boundary E (p, s) \<and> word_boundary E (Some (last w), post))"

definition has_pair :: "pyenv \<Rightarrow> ustring \<Rightarrow> bool" where
  "has_pair E t = (\<exists>pre s a b. t = pre @ s \<and> pair_at E (prev_after None pre) s a b)"

definition has_six :: "pyenv \<Rightarrow> ustring \<Rightarrow> bool" where
  "has_six E t = (\<exists>pre s w. t = pre @ s \<and> six_at E (prev_after None pre) s w)"

text \<open>
  What Python's tables say of the letters \<open>A\<close> to \<open>Z\<close>: \<open>upper\<close> leaves them as they are
  and they are not whitespace.
\<close>

definition letters_plain :: "pyenv \<Rightarrow> bool" where
  "letters_plain E = (\<forall>c. 65 \<le> c \<and> c \<le> 90 \<longrightarrow> py_upper E c = [c] \<and> \<not> py_isspace E c)"

text \<open>The leftmost pair, and the leftmost six-letter token, of a text.\<close>

definition first_pair :: "pyenv \<Rightarrow> ustring \<Rightarrow> ustring \<Rightarrow> ustring \<Rightarrow> bool" where
  "first_pair E t a b =
     (\<exists>pre s. t = pre @ s \<and> pair_at E (prev_after None pre) s a b
        \<and> (\<forall>pre' s'. t = pre' @ s' \<and> length pre' < length pre \<longrightarrow>
              \<not> (\<exists>a' b'. pair_at E (prev_after None pre') s' a' b')))"

definition first_six :: "pyenv \<Rightarrow> ustring \<Rightarrow> ustring \<Rightarrow> bool" where
  "first_six E t w =
     (\<exists>pre s. t = pre @ s \<and> six_at E (prev_after None pre) s w
        \<and> (\<forall>pre' s'. t = pre' @ s' \<and> length pre' < length pre \<longrightarrow>
              \<not> (\<exists>w'. six_at E (prev_after None pre') s' w')))"

section \<open>Messages without text\<close>

lemma strip_all_space:
  assumes "\<forall>c \<in> set m. py_isspace E c"
  shows "strip E m = []"
proof -
  from assms have h: "dropWhile (py_isspace E) m = []"
    by (simp add: dropWhile_eq_Nil_conv)
  show ?thesis
    unfolding strip_def h by simp
qed

text \<open>
  Claim C10. A message whose text is absent, empty or made of whitespace only yields no
  Command.
\<close>

theorem parse_message_blank:
  "msg_text msg = None \<or> (\<exists>m. msg_text msg = Some m \<and> (\<forall>c \<in> set m. py_isspace E c))
   \<Longrightarrow> parse_message E msg = None"
  by (auto simp: parse_message_def strip_all_space)

theorem parse_message_blank_witness:
  "list_all (py_isspace std_env) (ustr ''  '')
   \<and> parse_message std_env
         \<lparr> msg_id = 7, msg_text = Some (ustr ''  ''), reply_to_msg_id = None \<rparr> = None"
  using parse_message_blank
    [of "\<lparr> msg_id = 7, msg_text = Some (ustr ''  ''), reply_to_msg_id = None \<rparr>" std_env]
  by (simp add: std_env_def ustr_def)

section \<open>The structure of \<open>parse_message\<close>\<close>

lemma parse_message_text:
  "msg_text msg = Some m \<Longrightarrow> strip E m \<noteq> [] \<Longrightarrow>
   parse_message E msg = parse_text E (msg_id msg) (message_t E m)"
  by (auto simp: parse_message_def message_t_def Let_def strip_def)

lemma parse_message_Some_text:
  "parse_message E msg = Some c \<Longrightarrow>
   \<exists>m. msg_text msg = Some m \<and> strip E m \<noteq> []
       \<and> parse_text E (msg_id msg) (message_t E m) = Some c"
  by (auto simp: parse_message_def message_t_def Let_def split: option.splits if_splits)




section \<open>Cancel keyword with unresolved fields\<close>




section \<open>Groups of a match\<close>





lemma parse_text_cancel:
  "parse_cancel E t = Some c \<Longrightarrow>
   parse_text E i t = Some (mk_command i CANCEL (c_symbol c) (c_type c) (c_side c) (c_entry c)
                  (Fin 0) (Fin 0) (Fin 0) ''cancel'')"
  by (simp add: parse_text_def)

lemma parse_text_update:
  "parse_cancel E t = None \<Longrightarrow> parse_update E t = Some (old_e, new_e) \<Longrightarrow>
   parse_text E i t =
     (if \<not> str_truthy (extract_symbol E t) then None
      else Some (mk_command i UPDATE (the (extract_symbol E t))
                   (case extract_pending_type E t of Some pt \<Rightarrow> pt | None \<Rightarrow> SELL_LIMIT)
                   (case extract_side E t of
                       Some s \<Rightarrow> s
                     | None \<Rightarrow> if contains (ustr ''SELL'') t then SELL else BUY)
                   new_e (Fin 0) (Fin 0) old_e ''update''))"
  by (simp add: parse_text_def Let_def)

lemma parse_text_open_none:
  "parse_cancel E t = None \<Longrightarrow> parse_update E t = None \<Longrightarrow>
   \<not> str_truthy (extract_symbol E t) \<or> extract_side E t = None \<Longrightarrow>
   parse_text E i t = None"
  by (auto simp add: parse_text_def Let_def)

lemma parse_text_open_market:
  "parse_cancel E t = None \<Longrightarrow> parse_update E t = None \<Longrightarrow>
   str_truthy (extract_symbol E t) \<Longrightarrow> extract_side E t = Some sd \<Longrightarrow>
   is_market_direct E t \<or> (extract_pending_type E t = None \<and> contains (ustr ''A MERCATO'') t) \<Longrightarrow>
   parse_text E i t = Some (mk_command i OPEN (the (extract_symbol E t)) MARKET sd (Fin 0)
       (v_sl (extract_entry_sl_tp E t)) (v_tp (extract_entry_sl_tp E t)) (Fin 0) ''market_direct'')"
  by (auto simp add: parse_text_def Let_def)

lemma parse_text_open_pending:
  "parse_cancel E t = None \<Longrightarrow> parse_update E t = None \<Longrightarrow>
   str_truthy (extract_symbol E t) \<Longrightarrow> extract_side E t = Some sd \<Longrightarrow>
   \<not> (is_market_direct E t \<or> (extract_pending_type E t = None \<and> contains (ustr ''A MERCATO'') t)) \<Longrightarrow>
   parse_text E i t =
     (case extract_pending_type E t of
        Some pt \<Rightarrow>
          if float_le0 (v_entry (extract_entry_sl_tp E t)) then None
          else Some (mk_command i OPEN (the (extract_symbol E t)) pt sd
                 (v_entry (extract_entry_sl_tp E t)) (v_sl (extract_entry_sl_tp E t))
                 (v_tp (extract_entry_sl_tp E t)) (Fin 0) ''pending'')
      | None \<Rightarrow> None)"
  by (simp add: parse_text_def Let_def)

section \<open>Pending opens carry a positive entry\<close>

lemma float_not_le0: "\<not> float_le0 x \<Longrightarrow> float_gt0 x"
  by (cases x) auto

lemma labeled_absent: "re_search E r t = None \<Longrightarrow> labeled E r t = Fin 0"
  by (simp add: labeled_def)

lemma market_phrasing_iff:
  "market_phrasing E t \<longleftrightarrow>
   is_market_direct E t \<or> (extract_pending_type E t = None \<and> contains (ustr ''A MERCATO'') t)"
  by (auto simp: market_phrasing_def is_market_direct_def Let_def)

lemma parse_text_open_entry:
  assumes r: "parse_text E i t = Some c" and a: "action c = OPEN" and o: "otype c \<noteq> MARKET"
  shows "float_gt0 (entry c)"
proof (cases "parse_cancel E t")
  case (Some cf)
  from parse_text_cancel [OF Some, of i] r a show ?thesis
    by (auto simp: mk_command_def)
next
  case None
  note pc = None
  show ?thesis
  proof (cases "parse_update E t")
    case (Some u)
    obtain old_e new_e where "u = (old_e, new_e)" by (cases u)
    with Some have "parse_update E t = Some (old_e, new_e)" by simp
    from parse_text_update [OF pc this, of i] r a show ?thesis
      by (auto simp: mk_command_def split: if_splits)
  next
    case None
    note pu = None
    show ?thesis
    proof (cases "str_truthy (extract_symbol E t) \<and> extract_side E t \<noteq> None")
      case False
      then have "\<not> str_truthy (extract_symbol E t) \<or> extract_side E t = None" by simp
      from parse_text_open_none [OF pc pu this, of i] r show ?thesis by simp
    next
      case True
      then obtain sd where y: "str_truthy (extract_symbol E t)"
        and sd: "extract_side E t = Some sd" by auto
      show ?thesis
      proof (cases "market_phrasing E t")
        case True
        then have "is_market_direct E t
            \<or> (extract_pending_type E t = None \<and> contains (ustr ''A MERCATO'') t)"
          by (simp add: market_phrasing_iff)
        from parse_text_open_market [OF pc pu y sd this, of i] r o show ?thesis
          by (auto simp: mk_command_def)
      next
        case False
        then have "\<not> (is_market_direct E t
            \<or> (extract_pending_type E t = None \<and> contains (ustr ''A MERCATO'') t))"
          by (simp add: market_phrasing_iff)
        from parse_text_open_pending [OF pc pu y sd this, of i] r show ?thesis
          by (auto simp: mk_command_def float_not_le0 split: option.splits if_splits)
      qed
    qed
  qed
qed

lemma parse_text_pending_dropped:
  assumes c: "classified_pending_open E t"
    and e: "float_le0 (v_entry (extract_entry_sl_tp E t))"
  shows "parse_text E i t = None"
proof -
  from c obtain sd pt where pc: "parse_cancel E t = None" and pu: "parse_update E t = None"
    and y: "str_truthy (extract_symbol E t)" and sd: "extract_side E t = Some sd"
    and m: "\<not> market_phrasing E t" and pt: "extract_pending_type E t = Some pt"
    by (auto simp: classified_pending_open_def)
  from m have "\<not> (is_market_direct E t
      \<or> (extract_pending_type E t = None \<and> contains (ustr ''A MERCATO'') t))"
    by (simp add: market_phrasing_iff)
  from parse_text_open_pending [OF pc pu y sd this, of i] pt e show ?thesis
    by simp
qed

text \<open>
  Claim C5. A Command that \<open>parse_message\<close> produces with action OPEN and a pending order
  type has a positive entry; and a message that reaches the pending branch of the OPEN
  stage with its labeled entry price absent or not positive yields no Command.
\<close>

theorem pending_open_entry_positive:
  "(parse_message E msg = Some c \<and> action c = OPEN \<and> otype c \<noteq> MARKET
      \<longrightarrow> float_gt0 (entry c))
   \<and> (msg_text msg = Some m \<and> strip E m \<noteq> [] \<and> classified_pending_open E (message_t E m)
       \<and> (re_search E RE_ENTRY (upper E (message_t E m)) = None
          \<or> float_le0 (v_entry (extract_entry_sl_tp E (message_t E m))))
      \<longrightarrow> parse_message E msg = None)"
proof (intro conjI impI)
  assume "parse_message E msg = Some c \<and> action c = OPEN \<and> otype c \<noteq> MARKET"
  then obtain m' where "parse_text E (msg_id msg) (message_t E m') = Some c"
    and "action c = OPEN" and "otype c \<noteq> MARKET"
    using parse_message_Some_text [of E msg c] by blast
  then show "float_gt0 (entry c)"
    by (rule parse_text_open_entry)
next
  assume h: "msg_text msg = Some m \<and> strip E m \<noteq> []
      \<and> classified_pending_open E (message_t E m)
      \<and> (re_search E RE_ENTRY (upper E (message_t E m)) = None
         \<or> float_le0 (v_entry (extract_entry_sl_tp E (message_t E m))))"
  then have "float_le0 (v_entry (extract_entry_sl_tp E (message_t E m)))"
    by (auto simp: extract_entry_sl_tp_def Let_def labeled_absent)
  with h show "parse_message E msg = None"
    by (simp add: parse_message_text parse_text_pending_dropped)
qed

theorem pending_open_entry_positive_witness:
  "parse_message std_env (sample_msg 7 ''SELL LIMIT AUD/USD PREZZO 0,66930 STOP LOSS 0.67'')
     = Some (mk_command 7 OPEN (ustr ''AUDUSD-STD'') SELL_LIMIT SELL (Fin (6693 / 10000))
               (Fin (67 / 100)) (Fin 0) (Fin 0) ''pending'')
   \<and> float_gt0 (entry (mk_command 7 OPEN (ustr ''AUDUSD-STD'') SELL_LIMIT SELL
                         (Fin (6693 / 10000)) (Fin (67 / 100)) (Fin 0) (Fin 0) ''pending''))
   \<and> classified_pending_open std_env (message_t std_env (ustr ''BUY LIMIT EUR/USD''))
   \<and> re_search std_env RE_ENTRY
        (upper std_env (message_t std_env (ustr ''BUY LIMIT EUR/USD''))) = None
   \<and> parse_message std_env (sample_msg 7 ''BUY LIMIT EUR/USD'') = None"
proof -
  let ?s1 = "''SELL LIMIT AUD/USD PREZZO 0,66930 STOP LOSS 0.67''"
  let ?c1 = "mk_command 7 OPEN (ustr ''AUDUSD-STD'') SELL_LIMIT SELL (Fin (6693 / 10000))
               (Fin (67 / 100)) (Fin 0) (Fin 0) ''pending''"
  let ?s2 = "''BUY LIMIT EUR/USD''"
  have p1: "parse_message std_env (sample_msg 7 ?s1) = Some ?c1"
    by code_simp
  have a1: "action ?c1 = OPEN" and o1: "otype ?c1 \<noteq> MARKET"
    by (simp_all add: mk_command_def)
  have "parse_message std_env (sample_msg 7 ?s1) = Some ?c1 \<and> action ?c1 = OPEN
          \<and> otype ?c1 \<noteq> MARKET \<longrightarrow> float_gt0 (entry ?c1)"
    by (rule conjunct1 [OF pending_open_entry_positive])
  then have g1: "float_gt0 (entry ?c1)"
    using conjI [OF p1 conjI [OF a1 o1]] by (rule mp)
  have t2: "msg_text (sample_msg 7 ?s2) = Some (ustr ?s2)"
    by (simp add: sample_msg_def)
  have n2: "strip std_env (ustr ?s2) \<noteq> []"
    by code_simp
  have c2: "classified_pending_open std_env (message_t std_env (ustr ?s2))"
    by code_simp
  have e2: "re_search std_env RE_ENTRY (upper std_env (message_t std_env (ustr ?s2))) = None"
    by code_simp
  have "msg_text (sample_msg 7 ?s2) = Some (ustr ?s2) \<and> strip std_env (ustr ?s2) \<noteq> []
          \<and> classified_pending_open std_env (message_t std_env (ustr ?s2))
          \<and> (re_search std_env RE_ENTRY (upper std_env (message_t std_env (ustr ?s2))) = None
             \<or> float_le0 (v_entry (extract_entry_sl_tp std_env (message_t std_env (ustr ?s2)))))
        \<longrightarrow> parse_message std_env (sample_msg 7 ?s2) = None"
    by (rule conjunct2 [OF pending_open_entry_positive])
  then have r2: "parse_message std_env (sample_msg 7 ?s2) = None"
    using conjI [OF t2 conjI [OF n2 conjI [OF c2 disjI1 [OF e2]]]] by (rule mp)
  from p1 g1 c2 e2 r2 show ?thesis by (intro conjI)
qed

section \<open>Market opens\<close>





section \<open>Updates\<close>






section \<open>The dedup store\<close>

lemma dict_set_keys: "set (map fst (dict_set k v d)) = insert k (set (map fst d))"
  by (induction d) auto

lemma dict_set_distinct: "distinct (map fst d) \<Longrightarrow> distinct (map fst (dict_set k v d))"
  by (induction d) (auto simp: dict_set_keys [simplified])

lemma dict_set_lookup: "map_of (dict_set k v d) k = Some v"
  by (induction d) auto


lemma fold_dict_del:
  "foldl (\<lambda>d' e. dict_del (fst e) d') d ev = filter (\<lambda>e. fst e \<notin> fst ` set ev) d"
proof (induction ev arbitrary: d)
  case Nil
  then show ?case by simp
next
  case (Cons x ev)
  have "foldl (\<lambda>d' e. dict_del (fst e) d') d (x # ev)
        = foldl (\<lambda>d' e. dict_del (fst e) d') (dict_del (fst x) d) ev"
    by simp
  also have "\<dots> = filter (\<lambda>e. fst e \<notin> fst ` set ev) (dict_del (fst x) d)"
    by (rule Cons.IH)
  also have "\<dots> = filter (\<lambda>e. fst e \<notin> fst ` set (x # ev)) d"
    unfolding dict_del_def filter_filter by (rule filter_cong) auto
  finally show ?case .
qed

lemma distinct_keys_entries: "distinct (map fst d) \<Longrightarrow> distinct d"
  by (rule distinct_map [THEN iffD1, THEN conjunct1])

lemma key_in_entries:
  assumes "distinct (map fst d)" "set ev \<subseteq> set d" "e \<in> set d"
  shows "fst e \<in> fst ` set ev \<longleftrightarrow> e \<in> set ev"
proof
  assume "fst e \<in> fst ` set ev"
  then obtain e' where e': "e' \<in> set ev" "fst e' = fst e" by auto
  with assms have "e' \<in> set d" by auto
  with assms(1,3) e'(2) have "e' = e"
    by (meson distinct_map inj_onD)
  with e'(1) show "e \<in> set ev" by simp
qed auto

lemma sorted_take_drop:
  assumes "sorted (map f xs)" "a \<in> set (take n xs)" "b \<in> set (drop n xs)"
  shows "f a \<le> f b"
proof -
  have "sorted (map f (take n xs) @ map f (drop n xs))"
    using assms(1) by (simp flip: map_append)
  with assms(2,3) show ?thesis
    by (auto simp: sorted_append)
qed

lemma length_filter_out:
  assumes "distinct d" "distinct ev" "set ev \<subseteq> set d"
  shows "length (filter (\<lambda>e. e \<notin> set ev) d) = length d - length ev"
proof -
  have "length (filter (\<lambda>e. e \<notin> set ev) d) = card (set (filter (\<lambda>e. e \<notin> set ev) d))"
    by (rule distinct_card [symmetric]) (simp add: assms(1))
  also have "set (filter (\<lambda>e. e \<notin> set ev) d) = set d - set ev" by auto
  also have "card (set d - set ev) = card (set d) - card (set ev)"
    using assms(3) by (simp add: card_Diff_subset)
  finally show ?thesis
    using assms(1,2) by (simp add: distinct_card)
qed

lemma mark_processed_small:
  "length (dict_set i ts d) \<le> 20000 \<Longrightarrow> mark_processed i ts d = dict_set i ts d"
  by (simp add: mark_processed_def)

lemma mark_processed_evict:
  assumes dk: "distinct (map fst d)" and big: "length (dict_set i ts d) > 20000"
  defines "d1 \<equiv> dict_set i ts d"
  defines "ev \<equiv> take 2000 (sort_key snd d1)"
  shows "mark_processed i ts d = filter (\<lambda>e. e \<notin> set ev) d1"
    and "length ev = 2000" and "distinct ev" and "set ev \<subseteq> set d1"
    and "length (mark_processed i ts d) = length d1 - 2000"
    and "\<forall>a \<in> set ev. \<forall>b \<in> set (mark_processed i ts d). snd a \<le> snd b"
proof -
  have d1k: "distinct (map fst d1)"
    unfolding d1_def using dk by (rule dict_set_distinct)
  then have d1d: "distinct d1" by (rule distinct_keys_entries)
  show sub: "set ev \<subseteq> set d1"
    unfolding ev_def by (auto dest: in_set_takeD)
  show len: "length ev = 2000"
    unfolding ev_def using big by (simp add: d1_def)
  show evd: "distinct ev"
    unfolding ev_def using d1d by simp
  have "mark_processed i ts d = filter (\<lambda>e. fst e \<notin> fst ` set ev) d1"
    using big by (simp add: mark_processed_def fold_dict_del d1_def ev_def Let_def)
  also have "\<dots> = filter (\<lambda>e. e \<notin> set ev) d1"
    by (rule filter_cong) (simp_all add: key_in_entries [OF d1k sub])
  finally show eq: "mark_processed i ts d = filter (\<lambda>e. e \<notin> set ev) d1" .
  show "length (mark_processed i ts d) = length d1 - 2000"
    unfolding eq using length_filter_out [OF d1d evd sub] len by simp
  show "\<forall>a \<in> set ev. \<forall>b \<in> set (mark_processed i ts d). snd a \<le> snd b"
  proof (intro ballI)
    fix a b
    assume a: "a \<in> set ev" and b: "b \<in> set (mark_processed i ts d)"
    from b have "b \<in> set (sort_key snd d1)" and "b \<notin> set (take 2000 (sort_key snd d1))"
      by (auto simp: eq ev_def)
    then have "b \<in> set (drop 2000 (sort_key snd d1))"
      by (metis Un_iff append_take_drop_id set_append)
    with a show "snd a \<le> snd b"
      unfolding ev_def by (intro sorted_take_drop [where xs = "sort_key snd d1" and n = 2000]) simp_all
  qed
qed

lemma dict_set_length: "length d \<le> length (dict_set k v d)"
  by (induction d) auto

text \<open>
  Claim C7. \<open>mark_processed\<close> records the message id with its timestamp; when the table
  then has more than 20000 entries, it removes exactly 2000 of them, and every removed
  entry has a timestamp no greater than that of any entry kept; otherwise it removes
  nothing. So from a store of 20001 entries the call leaves 2000 entries fewer than the
  table has after the insertion alone.
\<close>

theorem mark_processed_eviction:
  assumes "distinct (map fst d)"
  shows "map_of (dict_set i ts d) i = Some ts
    \<and> (length (dict_set i ts d) \<le> 20000 \<longrightarrow> mark_processed i ts d = dict_set i ts d)
    \<and> (length (dict_set i ts d) > 20000 \<longrightarrow>
         (\<exists>ev. length ev = 2000 \<and> distinct ev \<and> set ev \<subseteq> set (dict_set i ts d)
            \<and> mark_processed i ts d = filter (\<lambda>e. e \<notin> set ev) (dict_set i ts d)
            \<and> length (mark_processed i ts d) = length (dict_set i ts d) - 2000
            \<and> (\<forall>a \<in> set ev. \<forall>b \<in> set (mark_processed i ts d). snd a \<le> snd b)))
    \<and> (length d = 20001 \<longrightarrow>
         length (mark_processed i ts d) = length (dict_set i ts d) - 2000)"
proof (intro conjI impI)
  show "map_of (dict_set i ts d) i = Some ts"
    by (rule dict_set_lookup)
  show "mark_processed i ts d = dict_set i ts d" if "length (dict_set i ts d) \<le> 20000"
    using that by (rule mark_processed_small)
  show "\<exists>ev. length ev = 2000 \<and> distinct ev \<and> set ev \<subseteq> set (dict_set i ts d)
            \<and> mark_processed i ts d = filter (\<lambda>e. e \<notin> set ev) (dict_set i ts d)
            \<and> length (mark_processed i ts d) = length (dict_set i ts d) - 2000
            \<and> (\<forall>a \<in> set ev. \<forall>b \<in> set (mark_processed i ts d). snd a \<le> snd b)"
    if big: "length (dict_set i ts d) > 20000"
    using mark_processed_evict [OF assms big]
    by (intro exI [where x = "take 2000 (sort_key snd (dict_set i ts d))"] conjI)
  show "length (mark_processed i ts d) = length (dict_set i ts d) - 2000"
    if "length d = 20001"
  proof -
    from that dict_set_length [of d i ts] have "length (dict_set i ts d) > 20000" by simp
    from mark_processed_evict(5) [OF assms this] show ?thesis .
  qed
qed

theorem mark_processed_eviction_witness:
  "distinct (map fst (map (\<lambda>k. (k, k)) [1..20001]))
   \<and> length (map (\<lambda>k. (k, k)) [1..20001]) = 20001
   \<and> length (mark_processed 0 0 (map (\<lambda>k. (k, k)) [1..20001]))
       = length (dict_set 0 0 (map (\<lambda>k. (k, k)) [1..20001])) - 2000"
proof -
  let ?d = "map (\<lambda>k. (k, k)) [1..20001::int]"
  have dk: "distinct (map fst ?d)"
    by (simp add: comp_def del: upto_rec_numeral)
  have len: "length ?d = 20001"
    by (simp del: upto_rec_numeral)
  have "length ?d = 20001 \<longrightarrow>
      length (mark_processed 0 0 ?d) = length (dict_set 0 0 ?d) - 2000"
    using mark_processed_eviction [OF dk, of 0 0] by (elim conjE)
  then have "length (mark_processed 0 0 ?d) = length (dict_set 0 0 ?d) - 2000"
    using len by (rule mp)
  with dk len show ?thesis by (intro conjI)
qed

section \<open>Idempotence of the live handler\<close>













section \<open>Order ids and reply chains\<close>

lemma str_nat_nonempty: "str_nat n \<noteq> []"
  by (subst str_nat.simps) simp

lemma str_nat_digits: "c \<in> set (str_nat n) \<Longrightarrow> 48 \<le> c \<and> c \<le> 57"
proof (induction n rule: str_nat.induct)
  case (1 n)
  show ?case
  proof (cases "n < 10")
    case True
    with "1.prems" show ?thesis
      by (subst (asm) str_nat.simps) simp
  next
    case False
    from "1.prems" have "c \<in> set (str_nat (n div 10)) \<or> c = 48 + n mod 10"
      by (subst (asm) str_nat.simps) (auto simp add: False)
    then show ?thesis
    proof
      assume "c \<in> set (str_nat (n div 10))"
      with False "1.IH" show ?thesis by simp
    next
      assume "c = 48 + n mod 10"
      moreover have "n mod 10 < 10" by simp
      ultimately show ?thesis by linarith
    qed
  qed
qed

lemma str_nat_inj: "str_nat a = str_nat b \<Longrightarrow> a = b"
proof (induction a arbitrary: b rule: str_nat.induct)
  case (1 a)
  show ?case
  proof (cases "a < 10")
    case True
    then have sa: "str_nat a = [48 + a]"
      by (subst str_nat.simps) simp
    show ?thesis
    proof (cases "b < 10")
      case True
      then have "str_nat b = [48 + b]"
        by (subst str_nat.simps) simp
      with sa "1.prems" show ?thesis by simp
    next
      case False
      then have "str_nat b = str_nat (b div 10) @ [48 + b mod 10]"
        by (subst str_nat.simps) simp
      with sa "1.prems" have "str_nat (b div 10) = []"
        by (metis append_butlast_last_id butlast.simps(2) butlast_snoc list.distinct(1)
            self_append_conv2)
      with str_nat_nonempty show ?thesis by blast
    qed
  next
    case False
    then have sa: "str_nat a = str_nat (a div 10) @ [48 + a mod 10]"
      by (subst str_nat.simps) simp
    show ?thesis
    proof (cases "b < 10")
      case True
      then have "str_nat b = [48 + b]"
        by (subst str_nat.simps) simp
      with sa "1.prems" have "str_nat (a div 10) = []"
        by (metis append_butlast_last_id butlast.simps(2) butlast_snoc list.distinct(1)
            self_append_conv2)
      with str_nat_nonempty show ?thesis by blast
    next
      case b: False
      then have "str_nat b = str_nat (b div 10) @ [48 + b mod 10]"
        by (subst str_nat.simps) simp
      with sa "1.prems" have e: "str_nat (a div 10) = str_nat (b div 10)"
        and m: "a mod 10 = b mod 10"
        by simp_all
      from "1.IH" [OF False e] have "a div 10 = b div 10" .
      with m show ?thesis
        by (metis div_mult_mod_eq)
    qed
  qed
qed

lemma str_int_inj: "str_int a = str_int b \<Longrightarrow> a = b"
proof -
  assume e: "str_int a = str_int b"
  have hd_digit: "hd (str_nat n) \<noteq> 45" for n
  proof -
    have "hd (str_nat n) \<in> set (str_nat n)"
      by (simp add: str_nat_nonempty)
    from str_nat_digits [OF this] show ?thesis by linarith
  qed
  show "a = b"
  proof (cases "a < 0"; cases "b < 0")
    assume "a < 0" "b < 0"
    with e have "str_nat (nat (- a)) = str_nat (nat (- b))"
      by (simp add: str_int_def)
    then have "nat (- a) = nat (- b)" by (rule str_nat_inj)
    with \<open>a < 0\<close> \<open>b < 0\<close> show ?thesis by simp
  next
    assume "a < 0" "\<not> b < 0"
    with e have "45 # str_nat (nat (- a)) = str_nat (nat b)"
      by (simp add: str_int_def)
    with hd_digit [of "nat b"] show ?thesis
      by (metis list.sel(1))
  next
    assume "\<not> a < 0" "b < 0"
    with e have "str_nat (nat a) = 45 # str_nat (nat (- b))"
      by (simp add: str_int_def)
    with hd_digit [of "nat a"] show ?thesis
      by (metis list.sel(1))
  next
    assume "\<not> a < 0" "\<not> b < 0"
    with e have "str_nat (nat a) = str_nat (nat b)"
      by (simp add: str_int_def)
    then have "nat a = nat b" by (rule str_nat_inj)
    with \<open>\<not> a < 0\<close> \<open>\<not> b < 0\<close> show ?thesis by simp
  qed
qed

lemma order_msg_inj: "order_msg a = order_msg b \<Longrightarrow> a = b"
  by (simp add: order_msg_def str_int_inj)

lemma order_msg_nonempty: "order_msg a \<noteq> []"
  by (simp add: order_msg_def ustr_def)

lemma ledger_wf_empty: "ledger_wf empty_db"
  by (simp add: ledger_wf_def empty_db_def)

lemma ledger_wf_fresh:
  assumes "ledger_wf L" "db_messages L i = None"
  shows "db_orders L (order_msg i) = None"
proof (rule ccontr)
  assume "db_orders L (order_msg i) \<noteq> None"
  then obtain ord where "db_orders L (order_msg i) = Some ord" by auto
  with assms(1) obtain j where "order_msg i = order_msg j" "db_messages L j \<noteq> None"
    unfolding ledger_wf_def by blast
  with assms(2) show False
    by (auto dest: order_msg_inj)
qed

lemma link_messages:
  "db_messages (link_message_to_order now L i oid cmd) j
   = (if j = i
      then Some \<lparr> r_order_id = oid, r_msg_id = i, r_action = action cmd, r_symbol = symbol cmd,
                  r_type = otype cmd, r_side = side cmd, r_entry = entry cmd, r_sl = sl cmd,
                  r_tp = tp cmd, r_timestamp = now 0 \<rparr>
      else db_messages L j)"
  by (simp add: link_message_to_order_def Let_def split: option.splits)

lemma link_orders_other:
  "oid' \<noteq> oid \<Longrightarrow> db_orders (link_message_to_order now L i oid cmd) oid' = db_orders L oid'"
  by (simp add: link_message_to_order_def Let_def split: option.splits)

lemma link_orders_new:
  "db_orders L oid = None \<Longrightarrow>
   db_orders (link_message_to_order now L i oid cmd) oid
   = Some \<lparr> o_order_id = oid, first_msg_id = i, messages = [i], o_symbol = symbol cmd,
            o_side = side cmd, status = ustr ''active'', latest_action = action cmd,
            created_at = now 1, updated_at = now 2 \<rparr>"
  by (simp add: link_message_to_order_def Let_def)

lemma link_orders_known:
  "db_orders L oid = Some ord \<Longrightarrow>
   db_orders (link_message_to_order now L i oid cmd) oid
   = Some (ord \<lparr> messages := (if i \<in> set (messages ord) then messages ord
                                else messages ord @ [i]),
                  latest_action := action cmd, updated_at := now 1 \<rparr>)"
  by (simp add: link_message_to_order_def Let_def)

lemma link_orders_dom:
  "db_orders (link_message_to_order now L i oid cmd) oid' \<noteq> None
   \<longleftrightarrow> oid' = oid \<or> db_orders L oid' \<noteq> None"
  by (cases "db_orders L oid")
     (auto simp: link_message_to_order_def Let_def split: if_splits)

lemma ledger_wf_link:
  assumes wf: "ledger_wf L" and oid: "oid = order_msg i \<or> db_orders L oid \<noteq> None"
  shows "ledger_wf (link_message_to_order now L i oid cmd)"
  unfolding ledger_wf_def
proof (intro conjI allI impI)
  fix oid' ord
  assume "db_orders (link_message_to_order now L i oid cmd) oid' = Some ord"
  then have "oid' = oid \<or> db_orders L oid' \<noteq> None"
    using link_orders_dom [of now L i oid cmd oid'] by simp
  then have "\<exists>j. oid' = order_msg j \<and> (j = i \<or> db_messages L j \<noteq> None)"
    using wf oid unfolding ledger_wf_def by (metis option.exhaust)
  then show "\<exists>j. oid' = order_msg j \<and> db_messages (link_message_to_order now L i oid cmd) j \<noteq> None"
    by (auto simp: link_messages)
next
  fix j r
  assume "db_messages (link_message_to_order now L i oid cmd) j = Some r"
  then have "r_order_id r = oid \<or> db_orders L (r_order_id r) \<noteq> None"
    using wf unfolding ledger_wf_def by (auto simp: link_messages split: if_splits)
  then show "db_orders (link_message_to_order now L i oid cmd) (r_order_id r) \<noteq> None"
    unfolding link_orders_dom .
qed

lemma resolve_order_id_cases:
  "ledger_wf L \<Longrightarrow>
   resolve_order_id L msg = order_msg (msg_id msg) \<or> db_orders L (resolve_order_id L msg) \<noteq> None"
  by (auto simp: resolve_order_id_def get_order_id_for_msg_def ledger_wf_def
      split: option.splits)

text \<open>Every ledger the linkage step builds from the empty one is well formed.\<close>

lemma ledger_wf_step:
  assumes "ledger_wf L"
  shows "ledger_wf (snd (resolve_and_link now L msg cmd))"
  unfolding resolve_and_link_def Let_def snd_conv
  using assms resolve_order_id_cases [OF assms] by (rule ledger_wf_link)

lemma resolve_root:
  "reply_to_msg_id msg = None \<Longrightarrow> resolve_order_id L msg = order_msg (msg_id msg)"
  by (simp add: resolve_order_id_def)

lemma resolve_reply:
  "reply_to_msg_id msg = Some l \<Longrightarrow> l \<noteq> 0 \<Longrightarrow> db_messages L l = Some r \<Longrightarrow>
   r_order_id r \<noteq> [] \<Longrightarrow> resolve_order_id L msg = r_order_id r"
  by (simp add: resolve_order_id_def get_order_id_for_msg_def)

lemma step_root:
  fixes now :: "nat \<Rightarrow> int" and cmd :: command
  assumes wf: "ledger_wf L" and fresh: "db_messages L (msg_id msg) = None"
    and root: "reply_to_msg_id msg = None"
  defines "res \<equiv> resolve_and_link now L msg cmd"
  shows "order_id (fst res) = order_msg (msg_id msg)"
    and "\<exists>r. db_messages (snd res) (msg_id msg) = Some r \<and> r_order_id r = order_msg (msg_id msg)"
    and "\<exists>ord. db_orders (snd res) (order_msg (msg_id msg)) = Some ord
               \<and> messages ord = [msg_id msg]"
proof -
  have oid: "resolve_order_id L msg = order_msg (msg_id msg)"
    using root by (rule resolve_root)
  have none: "db_orders L (order_msg (msg_id msg)) = None"
    using wf fresh by (rule ledger_wf_fresh)
  show "order_id (fst res) = order_msg (msg_id msg)"
    by (simp add: res_def resolve_and_link_def Let_def oid)
  show "\<exists>r. db_messages (snd res) (msg_id msg) = Some r \<and> r_order_id r = order_msg (msg_id msg)"
    by (simp add: res_def resolve_and_link_def Let_def oid link_messages)
  show "\<exists>ord. db_orders (snd res) (order_msg (msg_id msg)) = Some ord
               \<and> messages ord = [msg_id msg]"
    by (simp add: res_def resolve_and_link_def Let_def oid link_orders_new [OF none])
qed

lemma step_reply:
  fixes now :: "nat \<Rightarrow> int" and cmd :: command
  assumes reply: "reply_to_msg_id msg = Some l" and l0: "l \<noteq> 0"
    and rec: "db_messages L l = Some r" and roid: "r_order_id r = oid" and ne: "oid \<noteq> []"
    and ord: "db_orders L oid = Some ord" and new: "msg_id msg \<notin> set (messages ord)"
  defines "res \<equiv> resolve_and_link now L msg cmd"
  shows "order_id (fst res) = oid"
    and "\<exists>r'. db_messages (snd res) (msg_id msg) = Some r' \<and> r_order_id r' = oid"
    and "\<exists>ord'. db_orders (snd res) oid = Some ord'
               \<and> messages ord' = messages ord @ [msg_id msg]"
proof -
  have oid: "resolve_order_id L msg = oid"
    using resolve_reply [OF reply l0 rec] roid ne by simp
  show "order_id (fst res) = oid"
    by (simp add: res_def resolve_and_link_def Let_def oid)
  show "\<exists>r'. db_messages (snd res) (msg_id msg) = Some r' \<and> r_order_id r' = oid"
    by (simp add: res_def resolve_and_link_def Let_def oid link_messages)
  show "\<exists>ord'. db_orders (snd res) oid = Some ord'
               \<and> messages ord' = messages ord @ [msg_id msg]"
    using new by (simp add: res_def resolve_and_link_def Let_def oid link_orders_known [OF ord])
qed

text \<open>
  Claim C6. From a ledger the program has built, holding no record of the root message:
  a root message without reply target, a second message replying to the root and a third
  replying to the second (Telegram's message ids are positive, hence not zero, and those
  of distinct messages differ) all get the order id minted from the root's id, and the
  order's message sequence is then root, second, third.
\<close>

theorem reply_chain:
  fixes now1 now2 now3 :: "nat \<Rightarrow> int" and c1 c2 c3 :: command
  assumes wf: "ledger_wf L"
    and fresh: "db_messages L (msg_id m1) = None"
    and ids: "distinct [msg_id m1, msg_id m2, msg_id m3]" "msg_id m1 \<noteq> 0" "msg_id m2 \<noteq> 0"
    and replies: "reply_to_msg_id m1 = None" "reply_to_msg_id m2 = Some (msg_id m1)"
      "reply_to_msg_id m3 = Some (msg_id m2)"
  defines "r1 \<equiv> resolve_and_link now1 L m1 c1"
  defines "r2 \<equiv> resolve_and_link now2 (snd r1) m2 c2"
  defines "r3 \<equiv> resolve_and_link now3 (snd r2) m3 c3"
  shows "order_id (fst r1) = order_msg (msg_id m1)
    \<and> order_id (fst r2) = order_msg (msg_id m1)
    \<and> order_id (fst r3) = order_msg (msg_id m1)
    \<and> (\<exists>ord. db_orders (snd r3) (order_msg (msg_id m1)) = Some ord
            \<and> messages ord = [msg_id m1, msg_id m2, msg_id m3])"
proof -
  let ?oid = "order_msg (msg_id m1)"
  have ne: "?oid \<noteq> []" by (rule order_msg_nonempty)
  note s1 = step_root [OF wf fresh replies(1), of now1 c1, folded r1_def]
  from s1(2) obtain rec1 where rec1: "db_messages (snd r1) (msg_id m1) = Some rec1"
    "r_order_id rec1 = ?oid" by blast
  from s1(3) obtain ord1 where ord1: "db_orders (snd r1) ?oid = Some ord1"
    "messages ord1 = [msg_id m1]" by blast
  from ids(1) ord1(2) have new2: "msg_id m2 \<notin> set (messages ord1)" by simp
  note s2 = step_reply [OF replies(2) ids(2) rec1 ne ord1(1) new2, of now2 c2, folded r2_def]
  from s2(2) obtain rec2 where rec2: "db_messages (snd r2) (msg_id m2) = Some rec2"
    "r_order_id rec2 = ?oid" by blast
  from s2(3) ord1(2) obtain ord2 where ord2: "db_orders (snd r2) ?oid = Some ord2"
    "messages ord2 = [msg_id m1, msg_id m2]" by auto
  from ids(1) ord2(2) have new3: "msg_id m3 \<notin> set (messages ord2)" by simp
  note s3 = step_reply [OF replies(3) ids(3) rec2 ne ord2(1) new3, of now3 c3, folded r3_def]
  from s3(3) ord2(2) have "\<exists>ord. db_orders (snd r3) ?oid = Some ord
            \<and> messages ord = [msg_id m1, msg_id m2, msg_id m3]" by auto
  with s1(1) s2(1) s3(1) show ?thesis by simp
qed


theorem reply_chain_witness:
  "ledger_wf empty_db
   \<and> order_id (fst (resolve_and_link (\<lambda>n. 0)
         (snd (resolve_and_link (\<lambda>n. 0)
            (snd (resolve_and_link (\<lambda>n. 0) empty_db
               (sample_msg 1 ''BUY DIRETTA A MERCATO CAD/CHF'')
               (mk_command 1 OPEN (ustr ''CADCHF-STD'') MARKET BUY (Fin 0) (Fin 0) (Fin 0) (Fin 0) ''market_direct'')))
            (sample_msg 2 ''SELL LIMIT'' \<lparr> reply_to_msg_id := Some 1 \<rparr>)
            (mk_command 1 OPEN (ustr ''CADCHF-STD'') MARKET BUY (Fin 0) (Fin 0) (Fin 0) (Fin 0) ''market_direct'')))
         (sample_msg 3 ''ANNULLARE'' \<lparr> reply_to_msg_id := Some 2 \<rparr>)
         (mk_command 1 OPEN (ustr ''CADCHF-STD'') MARKET BUY (Fin 0) (Fin 0) (Fin 0) (Fin 0) ''market_direct'')))
       = order_msg (msg_id (sample_msg 1 ''BUY DIRETTA A MERCATO CAD/CHF''))
   \<and> (\<exists>ord. db_orders (snd (resolve_and_link (\<lambda>n. 0)
         (snd (resolve_and_link (\<lambda>n. 0)
            (snd (resolve_and_link (\<lambda>n. 0) empty_db
               (sample_msg 1 ''BUY DIRETTA A MERCATO CAD/CHF'')
               (mk_command 1 OPEN (ustr ''CADCHF-STD'') MARKET BUY (Fin 0) (Fin 0) (Fin 0) (Fin 0) ''market_direct'')))
            (sample_msg 2 ''SELL LIMIT'' \<lparr> reply_to_msg_id := Some 1 \<rparr>)
            (mk_command 1 OPEN (ustr ''CADCHF-STD'') MARKET BUY (Fin 0) (Fin 0) (Fin 0) (Fin 0) ''market_direct'')))
         (sample_msg 3 ''ANNULLARE'' \<lparr> reply_to_msg_id := Some 2 \<rparr>)
         (mk_command 1 OPEN (ustr ''CADCHF-STD'') MARKET BUY (Fin 0) (Fin 0) (Fin 0) (Fin 0) ''market_direct'')))
         (order_msg (msg_id (sample_msg 1 ''BUY DIRETTA A MERCATO CAD/CHF''))) = Some ord
       \<and> messages ord = [msg_id (sample_msg 1 ''BUY DIRETTA A MERCATO CAD/CHF''),
                          msg_id (sample_msg 2 ''SELL LIMIT'' \<lparr> reply_to_msg_id := Some 1 \<rparr>),
                          msg_id (sample_msg 3 ''ANNULLARE'' \<lparr> reply_to_msg_id := Some 2 \<rparr>)])"
proof -
  let ?m1 = "sample_msg 1 ''BUY DIRETTA A MERCATO CAD/CHF''"
  let ?m2 = "sample_msg 2 ''SELL LIMIT'' \<lparr> reply_to_msg_id := Some 1 \<rparr>"
  let ?m3 = "sample_msg 3 ''ANNULLARE'' \<lparr> reply_to_msg_id := Some 2 \<rparr>"
  let ?c = "mk_command 1 OPEN (ustr ''CADCHF-STD'') MARKET BUY (Fin 0) (Fin 0) (Fin 0) (Fin 0) ''market_direct''"
  have fresh: "db_messages empty_db (msg_id ?m1) = None"
    by (simp add: empty_db_def)
  have ids: "distinct [msg_id ?m1, msg_id ?m2, msg_id ?m3]" "msg_id ?m1 \<noteq> 0"
    "msg_id ?m2 \<noteq> 0"
    by (simp_all add: sample_msg_def)
  have replies: "reply_to_msg_id ?m1 = None" "reply_to_msg_id ?m2 = Some (msg_id ?m1)"
    "reply_to_msg_id ?m3 = Some (msg_id ?m2)"
    by (simp_all add: sample_msg_def)
  note inst = reply_chain [OF ledger_wf_empty fresh ids replies,
      of "\<lambda>n. 0" ?c "\<lambda>n. 0" ?c "\<lambda>n. 0" ?c]
  from inst have a: "order_id (fst (resolve_and_link (\<lambda>n. 0)
         (snd (resolve_and_link (\<lambda>n. 0) (snd (resolve_and_link (\<lambda>n. 0) empty_db ?m1 ?c)) ?m2 ?c))
         ?m3 ?c)) = order_msg (msg_id ?m1)"
    by (elim conjE)
  from inst have b: "\<exists>ord. db_orders (snd (resolve_and_link (\<lambda>n. 0)
         (snd (resolve_and_link (\<lambda>n. 0) (snd (resolve_and_link (\<lambda>n. 0) empty_db ?m1 ?c)) ?m2 ?c))
         ?m3 ?c)) (order_msg (msg_id ?m1)) = Some ord
       \<and> messages ord = [msg_id ?m1, msg_id ?m2, msg_id ?m3]"
    by (elim conjE)
  from ledger_wf_empty a b show ?thesis by (intro conjI)
qed

section \<open>The tabular output row\<close>









text \<open>
  A message that reaches the pending branch with an entry literal so long that \<open>float\<close>
  gives infinity yields a Command with an infinite entry.
\<close>

lemma pending_open_infinite_entry:
  assumes "msg_text msg = Some m" "strip E m \<noteq> []"
    and "classified_pending_open E (message_t E m)"
    and "v_entry (extract_entry_sl_tp E (message_t E m)) = PInf"
  shows "\<exists>c. parse_message E msg = Some c \<and> entry c = PInf"
proof -
  let ?t = "message_t E m"
  from assms(3) obtain sd pt where pc: "parse_cancel E ?t = None"
    and pu: "parse_update E ?t = None"
    and y: "str_truthy (extract_symbol E ?t)" and sd: "extract_side E ?t = Some sd"
    and mk: "\<not> market_phrasing E ?t" and pt: "extract_pending_type E ?t = Some pt"
    by (auto simp: classified_pending_open_def)
  from mk have "\<not> (is_market_direct E ?t
      \<or> (extract_pending_type E ?t = None \<and> contains (ustr ''A MERCATO'') ?t))"
    by (simp add: market_phrasing_iff)
  from parse_text_open_pending [OF pc pu y sd this, of "msg_id msg"] pt assms(4)
  show ?thesis
    by (simp add: parse_message_text [OF assms(1,2)] mk_command_def)
qed





section \<open>What a match attempt consumes\<close>

lemma prev_after_Nil [simp]: "prev_after p [] = p"
  by (simp add: prev_after_def)

lemma prev_after_Cons: "prev_after p (c # xs) = prev_after (Some c) xs"
  by (simp add: prev_after_def)

lemma prev_after_append: "prev_after (prev_after p xs) ys = prev_after p (xs @ ys)"
  by (simp add: prev_after_def)

lemma star_greedy_set:
  "(p', r') \<in> set (star_greedy P p r)
   \<longleftrightarrow> (\<exists>xs. r = xs @ r' \<and> list_all P xs \<and> p' = prev_after p xs)"
proof (induction r arbitrary: p)
  case Nil
  then show ?case by auto
next
  case (Cons c cs)
  show ?case
  proof
    assume "(p', r') \<in> set (star_greedy P p (c # cs))"
    then consider "P c" "(p', r') \<in> set (star_greedy P (Some c) cs)"
      | "p' = p" "r' = c # cs"
      by (auto split: if_splits)
    then show "\<exists>xs. c # cs = xs @ r' \<and> list_all P xs \<and> p' = prev_after p xs"
    proof cases
      case 1
      then obtain xs where "cs = xs @ r'" "list_all P xs" "p' = prev_after (Some c) xs"
        using Cons.IH by blast
      with 1(1) show ?thesis
        by (intro exI [where x = "c # xs"]) (simp add: prev_after_Cons)
    next
      case 2
      then show ?thesis
        by (intro exI [where x = "[]"]) simp
    qed
  next
    assume "\<exists>xs. c # cs = xs @ r' \<and> list_all P xs \<and> p' = prev_after p xs"
    then obtain xs where xs: "c # cs = xs @ r'" "list_all P xs" "p' = prev_after p xs"
      by blast
    show "(p', r') \<in> set (star_greedy P p (c # cs))"
    proof (cases xs)
      case Nil
      with xs have "r' = c # cs" "p' = p" by simp_all
      then show ?thesis by simp
    next
      case (Cons x xs')
      with xs have "x = c" "cs = xs' @ r'" "P c" "list_all P xs'"
        "p' = prev_after (Some c) xs'"
        by (simp_all add: prev_after_Cons)
      then show ?thesis
        using Cons.IH [of "Some c"] by auto
    qed
  qed
qed

lemma rep_n_set:
  "(p', r') \<in> set (rep_n P n (p, r))
   \<longleftrightarrow> (\<exists>xs. r = xs @ r' \<and> length xs = n \<and> list_all P xs \<and> p' = prev_after p xs)"
proof (induction n arbitrary: p r)
  case 0
  then show ?case by auto
next
  case (Suc n)
  show ?case
  proof (cases r)
    case Nil
    then show ?thesis by auto
  next
    case (Cons c cs)
    show ?thesis
    proof
      assume "(p', r') \<in> set (rep_n P (Suc n) (p, r))"
      with Cons have "P c" "(p', r') \<in> set (rep_n P n (Some c, cs))"
        by (auto split: if_splits)
      then obtain xs where "cs = xs @ r'" "length xs = n" "list_all P xs"
        "p' = prev_after (Some c) xs"
        using Suc.IH by blast
      with \<open>P c\<close> Cons show "\<exists>xs. r = xs @ r' \<and> length xs = Suc n \<and> list_all P xs
          \<and> p' = prev_after p xs"
        by (intro exI [where x = "c # xs"]) (simp add: prev_after_Cons)
    next
      assume "\<exists>xs. r = xs @ r' \<and> length xs = Suc n \<and> list_all P xs \<and> p' = prev_after p xs"
      then obtain xs where xs: "r = xs @ r'" "length xs = Suc n" "list_all P xs"
        "p' = prev_after p xs"
        by blast
      then obtain x xs' where x: "xs = x # xs'" by (cases xs) auto
      with xs Cons have "x = c" "cs = xs' @ r'" "P c" "list_all P xs'" "length xs' = n"
        "p' = prev_after (Some c) xs'"
        by (simp_all add: prev_after_Cons)
      then show "(p', r') \<in> set (rep_n P (Suc n) (p, r))"
        using Suc.IH [of "Some c" cs] Cons by auto
    qed
  qed
qed

lemma starts_with_iff: "starts_with s r \<longleftrightarrow> (\<exists>r'. r = s @ r')"
  by (induction s r rule: starts_with.induct) auto

lemma lit_set:
  "((p', r'), g') \<in> set (rx_match E (Lit s) ((p, r), g))
   \<longleftrightarrow> r = s @ r' \<and> p' = prev_after p s \<and> g' = g"
  by (auto simp: starts_with_iff prev_after_def)

lemma wordb_set:
  "(q', g') \<in> set (rx_match E WordB (q, g)) \<longleftrightarrow> word_boundary E q \<and> q' = q \<and> g' = g"
  by auto

lemma seq_set:
  "st'' \<in> set (rx_match E (Seq a b) st)
   \<longleftrightarrow> (\<exists>mid \<in> set (rx_match E a st). st'' \<in> set (rx_match E b mid))"
  by auto

lemma rep_set:
  "((p', r'), g') \<in> set (rx_match E (Rep n c) ((p, r), g))
   \<longleftrightarrow> (\<exists>xs. r = xs @ r' \<and> length xs = n \<and> list_all (in_cls E c) xs
            \<and> p' = prev_after p xs) \<and> g' = g"
  by (auto simp: rep_n_set)

lemma star_set:
  "((p', r'), g') \<in> set (rx_match E (Star c) ((p, r), g))
   \<longleftrightarrow> (\<exists>xs. r = xs @ r' \<and> list_all (in_cls E c) xs \<and> p' = prev_after p xs) \<and> g' = g"
  by (auto simp: star_greedy_set)

lemma grp_rep_set:
  "((p', r'), g') \<in> set (rx_match E (Grp (Rep n c)) ((p, r), g))
   \<longleftrightarrow> (\<exists>xs. r = xs @ r' \<and> length xs = n \<and> list_all (in_cls E c) xs
            \<and> p' = prev_after p xs \<and> g' = g @ [xs])"
proof
  assume "((p', r'), g') \<in> set (rx_match E (Grp (Rep n c)) ((p, r), g))"
  then have m: "(p', r') \<in> set (rep_n (in_cls E c) n (p, r))"
    and g': "g' = g @ [take (length r - length r') r]"
    by auto
  from m obtain xs where xs: "r = xs @ r'" "length xs = n" "list_all (in_cls E c) xs"
    "p' = prev_after p xs"
    unfolding rep_n_set by blast
  from xs(1) g' have "g' = g @ [xs]" by simp
  with xs show "\<exists>xs. r = xs @ r' \<and> length xs = n \<and> list_all (in_cls E c) xs
            \<and> p' = prev_after p xs \<and> g' = g @ [xs]"
    by blast
next
  assume "\<exists>xs. r = xs @ r' \<and> length xs = n \<and> list_all (in_cls E c) xs
            \<and> p' = prev_after p xs \<and> g' = g @ [xs]"
  then obtain xs where xs: "r = xs @ r'" "length xs = n" "list_all (in_cls E c) xs"
    "p' = prev_after p xs" "g' = g @ [xs]"
    by blast
  then have m: "(p', r') \<in> set (rep_n (in_cls E c) n (p, r))"
    unfolding rep_n_set by blast
  have "((p', r'), g @ [take (length r - length r') r])
        \<in> set (rx_match E (Grp (Rep n c)) ((p, r), g))"
    using m by (simp add: image_iff) force
  with xs(1,5) show "((p', r'), g') \<in> set (rx_match E (Grp (Rep n c)) ((p, r), g))"
    by simp
qed

lemma in_cls_upper: "list_all (in_cls E CUpper) xs = upper_letters xs"
  by (simp add: upper_letters_def list_all_iff)

lemma in_cls_space: "list_all (in_cls E CSpace) xs = list_all (py_isspace E) xs"
  by (simp add: list_all_iff)

lemma prev_after_nonempty: "xs \<noteq> [] \<Longrightarrow> prev_after p xs = Some (last xs)"
  by (simp add: prev_after_def)

lemma seq_wordb:
  "st' \<in> set (rx_match E (Seq WordB b) (q, g))
   \<longleftrightarrow> word_boundary E q \<and> st' \<in> set (rx_match E b (q, g))"
  by auto

lemma seq_grp_rep:
  "st' \<in> set (rx_match E (Seq (Grp (Rep n c)) b) ((p, r), g))
   \<longleftrightarrow> (\<exists>xs r1. r = xs @ r1 \<and> length xs = n \<and> list_all (in_cls E c) xs
          \<and> st' \<in> set (rx_match E b ((prev_after p xs, r1), g @ [xs])))"
proof
  assume "st' \<in> set (rx_match E (Seq (Grp (Rep n c)) b) ((p, r), g))"
  then obtain mid where mid: "mid \<in> set (rx_match E (Grp (Rep n c)) ((p, r), g))"
    and st': "st' \<in> set (rx_match E b mid)"
    unfolding seq_set by blast
  obtain p1 r1 g1 where m: "mid = ((p1, r1), g1)" by (metis prod.collapse)
  from mid [unfolded m grp_rep_set] st' m
  show "\<exists>xs r1. r = xs @ r1 \<and> length xs = n \<and> list_all (in_cls E c) xs
          \<and> st' \<in> set (rx_match E b ((prev_after p xs, r1), g @ [xs]))"
    by blast
next
  assume "\<exists>xs r1. r = xs @ r1 \<and> length xs = n \<and> list_all (in_cls E c) xs
          \<and> st' \<in> set (rx_match E b ((prev_after p xs, r1), g @ [xs]))"
  then obtain xs r1 where h: "r = xs @ r1" "length xs = n" "list_all (in_cls E c) xs"
    "st' \<in> set (rx_match E b ((prev_after p xs, r1), g @ [xs]))"
    by blast
  then have "((prev_after p xs, r1), g @ [xs]) \<in> set (rx_match E (Grp (Rep n c)) ((p, r), g))"
    unfolding grp_rep_set by blast
  with h(4) show "st' \<in> set (rx_match E (Seq (Grp (Rep n c)) b) ((p, r), g))"
    unfolding seq_set by blast
qed

lemma seq_star:
  "st' \<in> set (rx_match E (Seq (Star c) b) ((p, r), g))
   \<longleftrightarrow> (\<exists>xs r1. r = xs @ r1 \<and> list_all (in_cls E c) xs
          \<and> st' \<in> set (rx_match E b ((prev_after p xs, r1), g)))"
proof
  assume "st' \<in> set (rx_match E (Seq (Star c) b) ((p, r), g))"
  then obtain mid where mid: "mid \<in> set (rx_match E (Star c) ((p, r), g))"
    and st': "st' \<in> set (rx_match E b mid)"
    unfolding seq_set by blast
  obtain p1 r1 g1 where m: "mid = ((p1, r1), g1)" by (metis prod.collapse)
  from mid [unfolded m star_set] st' m
  show "\<exists>xs r1. r = xs @ r1 \<and> list_all (in_cls E c) xs
          \<and> st' \<in> set (rx_match E b ((prev_after p xs, r1), g))"
    by blast
next
  assume "\<exists>xs r1. r = xs @ r1 \<and> list_all (in_cls E c) xs
          \<and> st' \<in> set (rx_match E b ((prev_after p xs, r1), g))"
  then obtain xs r1 where h: "r = xs @ r1" "list_all (in_cls E c) xs"
    "st' \<in> set (rx_match E b ((prev_after p xs, r1), g))"
    by blast
  then have "((prev_after p xs, r1), g) \<in> set (rx_match E (Star c) ((p, r), g))"
    unfolding star_set by blast
  with h(3) show "st' \<in> set (rx_match E (Seq (Star c) b) ((p, r), g))"
    unfolding seq_set by blast
qed

lemma seq_lit:
  "st' \<in> set (rx_match E (Seq (Lit l) b) ((p, r), g))
   \<longleftrightarrow> (\<exists>r1. r = l @ r1 \<and> st' \<in> set (rx_match E b ((prev_after p l, r1), g)))"
proof
  assume "st' \<in> set (rx_match E (Seq (Lit l) b) ((p, r), g))"
  then obtain mid where mid: "mid \<in> set (rx_match E (Lit l) ((p, r), g))"
    and st': "st' \<in> set (rx_match E b mid)"
    unfolding seq_set by blast
  obtain p1 r1 g1 where m: "mid = ((p1, r1), g1)" by (metis prod.collapse)
  from mid [unfolded m lit_set] st' m
  show "\<exists>r1. r = l @ r1 \<and> st' \<in> set (rx_match E b ((prev_after p l, r1), g))"
    by blast
next
  assume "\<exists>r1. r = l @ r1 \<and> st' \<in> set (rx_match E b ((prev_after p l, r1), g))"
  then obtain r1 where h: "r = l @ r1" "st' \<in> set (rx_match E b ((prev_after p l, r1), g))"
    by blast
  then have "((prev_after p l, r1), g) \<in> set (rx_match E (Lit l) ((p, r), g))"
    unfolding lit_set by blast
  with h(2) show "st' \<in> set (rx_match E (Seq (Lit l) b) ((p, r), g))"
    unfolding seq_set by blast
qed

lemma wordb_end:
  "((p', r'), g') \<in> set (rx_match E WordB ((p, r), g))
   \<longleftrightarrow> word_boundary E (p, r) \<and> p' = p \<and> r' = r \<and> g' = g"
  by auto

section \<open>The two symbol patterns\<close>

lemma pair_match_set:
  "((p', r'), g') \<in> set (rx_match E RE_PAIR ((p, s), g))
   \<longleftrightarrow> (\<exists>a ws1 ws2 b.
          s = a @ ws1 @ [47] @ ws2 @ b @ r'
          \<and> length a = 3 \<and> upper_letters a \<and> length b = 3 \<and> upper_letters b
          \<and> list_all (py_isspace E) ws1 \<and> list_all (py_isspace E) ws2
          \<and> word_boundary E (p, s) \<and> word_boundary E (Some (last b), r')
          \<and> p' = Some (last b) \<and> g' = g @ [a, b])"
proof -
  have sl: "ustr ''/'' = [47]" by (simp add: ustr_def)
  have last3: "prev_after q b = Some (last b)" if "length b = 3" for q b
    using that by (intro prev_after_nonempty) auto
  show ?thesis
    unfolding RE_PAIR_def cat.simps sl
    unfolding seq_wordb seq_grp_rep seq_star seq_lit wordb_end in_cls_upper in_cls_space
    by (auto simp: last3 simp del: word_boundary.simps; blast)
qed

lemma six_match_set:
  "((p', r'), g') \<in> set (rx_match E RE_SIX ((p, s), g))
   \<longleftrightarrow> (\<exists>w. s = w @ r' \<and> length w = 6 \<and> upper_letters w
          \<and> word_boundary E (p, s) \<and> word_boundary E (Some (last w), r')
          \<and> p' = Some (last w) \<and> g' = g @ [w])"
proof -
  have last6: "prev_after q w = Some (last w)" if "length w = 6" for q w
    using that by (intro prev_after_nonempty) auto
  show ?thesis
    unfolding RE_SIX_def cat.simps
    unfolding seq_wordb seq_grp_rep wordb_end in_cls_upper
    by (auto simp: last6 simp del: word_boundary.simps)
qed

section \<open>Leftmost search\<close>

lemma search_from_None:
  "search_from E r p s = None
   \<longleftrightarrow> (\<forall>pre rest. s = pre @ rest \<longrightarrow> rx_match E r ((prev_after p pre, rest), []) = [])"
proof (induction s arbitrary: p)
  case Nil
  then show ?case by (auto split: list.splits)
next
  case (Cons c cs)
  have "search_from E r p (c # cs) = None
        \<longleftrightarrow> rx_match E r ((p, c # cs), []) = [] \<and> search_from E r (Some c) cs = None"
    by (auto split: list.splits)
  also have "\<dots> \<longleftrightarrow> rx_match E r ((p, c # cs), []) = []
      \<and> (\<forall>pre rest. cs = pre @ rest \<longrightarrow>
            rx_match E r ((prev_after (Some c) pre, rest), []) = [])"
    by (simp only: Cons.IH)
  also have "\<dots> \<longleftrightarrow> (\<forall>pre rest. c # cs = pre @ rest \<longrightarrow>
            rx_match E r ((prev_after p pre, rest), []) = [])"
  proof
    assume h: "rx_match E r ((p, c # cs), []) = []
      \<and> (\<forall>pre rest. cs = pre @ rest \<longrightarrow>
            rx_match E r ((prev_after (Some c) pre, rest), []) = [])"
    show "\<forall>pre rest. c # cs = pre @ rest \<longrightarrow>
            rx_match E r ((prev_after p pre, rest), []) = []"
    proof (intro allI impI)
      fix pre rest
      assume e: "c # cs = pre @ rest"
      show "rx_match E r ((prev_after p pre, rest), []) = []"
      proof (cases pre)
        case Nil
        with e h show ?thesis by simp
      next
        case (Cons x pre')
        with e have "x = c" "cs = pre' @ rest" by simp_all
        with h Cons show ?thesis by (simp add: prev_after_Cons)
      qed
    qed
  next
    assume h: "\<forall>pre rest. c # cs = pre @ rest \<longrightarrow>
            rx_match E r ((prev_after p pre, rest), []) = []"
    have "rx_match E r ((p, c # cs), []) = []"
      using h [rule_format, of "[]" "c # cs"] by simp
    moreover have "rx_match E r ((prev_after (Some c) pre, rest), []) = []"
      if "cs = pre @ rest" for pre rest
      using h [rule_format, of "c # pre" rest] that by (simp add: prev_after_Cons)
    ultimately show "rx_match E r ((p, c # cs), []) = []
      \<and> (\<forall>pre rest. cs = pre @ rest \<longrightarrow>
            rx_match E r ((prev_after (Some c) pre, rest), []) = [])"
      by blast
  qed
  finally show ?case .
qed

lemma search_from_Some:
  "search_from E r p s = Some g \<Longrightarrow>
   \<exists>pre rest m ms. s = pre @ rest \<and> rx_match E r ((prev_after p pre, rest), []) = m # ms
      \<and> g = snd m
      \<and> (\<forall>pre' rest'. s = pre' @ rest' \<and> length pre' < length pre \<longrightarrow>
            rx_match E r ((prev_after p pre', rest'), []) = [])"
proof (induction s arbitrary: p)
  case Nil
  then obtain m ms where "rx_match E r ((p, []), []) = m # ms" "g = snd m"
    by (auto split: list.splits)
  then show ?case
    by (intro exI [where x = "[]"]) simp
next
  case (Cons c cs)
  show ?case
  proof (cases "rx_match E r ((p, c # cs), [])")
    case (Cons m ms)
    with Cons.prems have "g = snd m" by simp
    with Cons show ?thesis
      by (intro exI [where x = "[]"] exI [where x = "c # cs"] exI [where x = m]
          exI [where x = ms]) simp
  next
    case Nil
    with Cons.prems have "search_from E r (Some c) cs = Some g" by simp
    from Cons.IH [OF this] obtain pre rest m ms where h: "cs = pre @ rest"
      "rx_match E r ((prev_after (Some c) pre, rest), []) = m # ms" "g = snd m"
      "\<forall>pre' rest'. cs = pre' @ rest' \<and> length pre' < length pre \<longrightarrow>
            rx_match E r ((prev_after (Some c) pre', rest'), []) = []"
      by blast
    have left: "rx_match E r ((prev_after p pre', rest'), []) = []"
      if e: "c # cs = pre' @ rest'" and l: "length pre' < length (c # pre)" for pre' rest'
    proof (cases pre')
      case Nil
      with e \<open>rx_match E r ((p, c # cs), []) = []\<close> show ?thesis by simp
    next
      case (Cons x pre'')
      with e l have "x = c" "cs = pre'' @ rest'" "length pre'' < length pre" by simp_all
      with h(4) Cons show ?thesis by (simp add: prev_after_Cons)
    qed
    show ?thesis
      using h(1,2,3) left
      by (intro exI [where x = "c # pre"] exI [where x = rest] exI [where x = m]
          exI [where x = ms]) (simp add: prev_after_Cons)
  qed
qed

section \<open>Symbol extraction\<close>

lemma pair_match_empty:
  "rx_match E RE_PAIR ((p, s), []) = [] \<longleftrightarrow> \<not> (\<exists>a b. pair_at E p s a b)"
proof -
  have "rx_match E RE_PAIR ((p, s), []) \<noteq> []
        \<longleftrightarrow> (\<exists>p' r' g'. ((p', r'), g') \<in> set (rx_match E RE_PAIR ((p, s), [])))"
    by (cases "rx_match E RE_PAIR ((p, s), [])") (auto intro: prod.exhaust)
  also have "\<dots> \<longleftrightarrow> (\<exists>a b. pair_at E p s a b)"
    unfolding pair_match_set pair_at_def by blast
  finally show ?thesis by blast
qed

lemma pair_match_head:
  assumes "rx_match E RE_PAIR ((p, s), []) = m # ms"
  shows "\<exists>a b. snd m = [a, b] \<and> pair_at E p s a b"
proof -
  obtain p' r' g' where m: "m = ((p', r'), g')" by (metis prod.collapse)
  with assms have "((p', r'), g') \<in> set (rx_match E RE_PAIR ((p, s), []))" by simp
  then obtain a b where "g' = [] @ [a, b]" "pair_at E p s a b"
    unfolding pair_match_set pair_at_def by blast
  then show ?thesis
    by (simp add: m)
qed

lemma six_match_empty:
  "rx_match E RE_SIX ((p, s), []) = [] \<longleftrightarrow> \<not> (\<exists>w. six_at E p s w)"
proof -
  have "rx_match E RE_SIX ((p, s), []) \<noteq> []
        \<longleftrightarrow> (\<exists>p' r' g'. ((p', r'), g') \<in> set (rx_match E RE_SIX ((p, s), [])))"
    by (cases "rx_match E RE_SIX ((p, s), [])") (auto intro: prod.exhaust)
  also have "\<dots> \<longleftrightarrow> (\<exists>w. six_at E p s w)"
    unfolding six_match_set six_at_def by blast
  finally show ?thesis by blast
qed

lemma six_match_head:
  assumes "rx_match E RE_SIX ((p, s), []) = m # ms"
  shows "\<exists>w. snd m = [w] \<and> six_at E p s w"
proof -
  obtain p' r' g' where m: "m = ((p', r'), g')" by (metis prod.collapse)
  with assms have "((p', r'), g') \<in> set (rx_match E RE_SIX ((p, s), []))" by simp
  then obtain w where "g' = [] @ [w]" "six_at E p s w"
    unfolding six_match_set six_at_def by blast
  then show ?thesis
    by (simp add: m)
qed

lemma search_pair_None: "re_search E RE_PAIR t = None \<longleftrightarrow> \<not> has_pair E t"
  unfolding re_search_def search_from_None pair_match_empty has_pair_def by blast

lemma search_pair_Some:
  assumes "re_search E RE_PAIR t = Some g"
  shows "\<exists>a b. g = [a, b] \<and> first_pair E t a b"
proof -
  from search_from_Some [OF assms [unfolded re_search_def]]
  obtain pre rest m ms where h: "t = pre @ rest"
    "rx_match E RE_PAIR ((prev_after None pre, rest), []) = m # ms" "g = snd m"
    "\<forall>pre' rest'. t = pre' @ rest' \<and> length pre' < length pre \<longrightarrow>
        rx_match E RE_PAIR ((prev_after None pre', rest'), []) = []"
    by blast
  from pair_match_head [OF h(2)] h(3) obtain a b where ab: "g = [a, b]"
    "pair_at E (prev_after None pre) rest a b" by auto
  from h(1) ab(2) h(4) have "first_pair E t a b"
    unfolding first_pair_def pair_match_empty by blast
  with ab(1) show ?thesis by blast
qed

lemma search_six_None: "re_search E RE_SIX t = None \<longleftrightarrow> \<not> has_six E t"
  unfolding re_search_def search_from_None six_match_empty has_six_def by blast

lemma search_six_Some:
  assumes "re_search E RE_SIX t = Some g"
  shows "\<exists>w. g = [w] \<and> first_six E t w"
proof -
  from search_from_Some [OF assms [unfolded re_search_def]]
  obtain pre rest m ms where h: "t = pre @ rest"
    "rx_match E RE_SIX ((prev_after None pre, rest), []) = m # ms" "g = snd m"
    "\<forall>pre' rest'. t = pre' @ rest' \<and> length pre' < length pre \<longrightarrow>
        rx_match E RE_SIX ((prev_after None pre', rest'), []) = []"
    by blast
  from six_match_head [OF h(2)] h(3) obtain w where w: "g = [w]"
    "six_at E (prev_after None pre) rest w" by auto
  from h(1) w(2) h(4) have "first_six E t w"
    unfolding first_six_def six_match_empty by blast
  with w(1) show ?thesis by blast
qed

lemma normalize_letters:
  assumes lp: "letters_plain E" and up: "upper_letters w"
  shows "normalize_symbol E w = w @ SYMBOL_POSTFIX E"
proof -
  from lp up have sp: "\<forall>c \<in> set w. \<not> py_isspace E c"
    and id: "\<forall>c \<in> set w. py_upper E c = [c]"
    and ns: "\<forall>c \<in> set w. c \<noteq> 32 \<and> c \<noteq> 47"
    by (auto simp: letters_plain_def upper_letters_def list_all_iff)
  have nodrop: "dropWhile (py_isspace E) v = v" if "\<forall>c \<in> set v. \<not> py_isspace E c" for v
    using that by (cases v) auto
  from sp have "\<forall>c \<in> set (rev w). \<not> py_isspace E c"
    by simp
  then have "dropWhile (py_isspace E) (rev w) = rev w"
    by (rule nodrop)
  with nodrop [OF sp] have st: "strip E w = w"
    by (simp add: strip_def)
  have upp: "upper E w = w"
    using id by (induction w) (auto simp: upper_def)
  have rm: "remove_char 32 w = w" "remove_char 47 w = w"
    using ns by (auto simp: remove_char_def filter_id_conv)
  show ?thesis
    by (simp add: normalize_symbol_def Let_def st upp rm)
qed

lemma pair_at_letters: "pair_at E p s a b \<Longrightarrow> upper_letters (a @ b)"
  unfolding pair_at_def upper_letters_def by (elim exE conjE) simp

lemma six_at_letters: "six_at E p s w \<Longrightarrow> upper_letters w"
  unfolding six_at_def by (elim exE conjE)

text \<open>
  Claim C2, as the code has it. The text is uppercased first. If it then holds a pair of
  three-letter codes between word boundaries, separated by a slash (which is not
  optional) with optional whitespace on either side, extraction returns the two codes of
  the leftmost such pair, joined, with the configured suffix; if it holds no such pair,
  extraction falls back to the leftmost token of six letters between word boundaries;
  with neither, no symbol is returned.
\<close>

theorem extract_symbol_spec:
  assumes "letters_plain E"
  shows "(has_pair E (upper E text) \<longrightarrow>
            (\<exists>a b. first_pair E (upper E text) a b
               \<and> extract_symbol E text = Some (a @ b @ SYMBOL_POSTFIX E)))
    \<and> (\<not> has_pair E (upper E text) \<and> has_six E (upper E text) \<longrightarrow>
            (\<exists>w. first_six E (upper E text) w
               \<and> extract_symbol E text = Some (w @ SYMBOL_POSTFIX E)))
    \<and> (\<not> has_pair E (upper E text) \<and> \<not> has_six E (upper E text) \<longrightarrow>
            extract_symbol E text = None)"
proof (intro conjI impI)
  assume "has_pair E (upper E text)"
  then obtain g where g: "re_search E RE_PAIR (upper E text) = Some g"
    using search_pair_None [of E "upper E text"] by auto
  from search_pair_Some [OF g] obtain a b where ab: "g = [a, b]"
    "first_pair E (upper E text) a b" by blast
  then have "upper_letters (a @ b)"
    unfolding first_pair_def by (blast dest: pair_at_letters)
  from normalize_letters [OF assms this] g ab(1)
  have "extract_symbol E text = Some (a @ b @ SYMBOL_POSTFIX E)"
    by (simp add: extract_symbol_def)
  with ab(2) show "\<exists>a b. first_pair E (upper E text) a b
               \<and> extract_symbol E text = Some (a @ b @ SYMBOL_POSTFIX E)"
    by blast
next
  assume "\<not> has_pair E (upper E text) \<and> has_six E (upper E text)"
  then have n: "re_search E RE_PAIR (upper E text) = None"
    and "has_six E (upper E text)"
    by (simp_all add: search_pair_None)
  then obtain g where g: "re_search E RE_SIX (upper E text) = Some g"
    using search_six_None [of E "upper E text"] by auto
  from search_six_Some [OF g] obtain w where w: "g = [w]" "first_six E (upper E text) w"
    by blast
  then have "upper_letters w"
    unfolding first_six_def by (blast dest: six_at_letters)
  from normalize_letters [OF assms this] n g w(1)
  have "extract_symbol E text = Some (w @ SYMBOL_POSTFIX E)"
    by (simp add: extract_symbol_def)
  with w(2) show "\<exists>w. first_six E (upper E text) w
               \<and> extract_symbol E text = Some (w @ SYMBOL_POSTFIX E)"
    by blast
next
  assume "\<not> has_pair E (upper E text) \<and> \<not> has_six E (upper E text)"
  then have "re_search E RE_PAIR (upper E text) = None"
    and "re_search E RE_SIX (upper E text) = None"
    by (simp_all add: search_pair_None search_six_None)
  then show "extract_symbol E text = None"
    by (simp add: extract_symbol_def)
qed

text \<open>
  The claim as the spec words it fails: two codes with a space and no slash between them
  are a pair with the slash left out, and no symbol is extracted.
\<close>

theorem extract_symbol_counterexample:
  "extract_symbol std_env (ustr ''EUR USD'') = None"
  by code_simp


theorem extract_symbol_spec_witness:
  "letters_plain std_env
   \<and> has_pair std_env (upper std_env (ustr ''buy eur / usd now''))
   \<and> (\<exists>a b. first_pair std_env (upper std_env (ustr ''buy eur / usd now'')) a b
          \<and> extract_symbol std_env (ustr ''buy eur / usd now'')
              = Some (a @ b @ SYMBOL_POSTFIX std_env))
   \<and> extract_symbol std_env (ustr ''buy eur / usd now'') = Some (ustr ''EURUSD-STD'')
   \<and> \<not> has_pair std_env (upper std_env (ustr ''EUR USD''))
   \<and> \<not> has_six std_env (upper std_env (ustr ''EUR USD''))
   \<and> extract_symbol std_env (ustr ''EUR USD'') = None"
proof -
  let ?t1 = "ustr ''buy eur / usd now''"
  let ?t3 = "ustr ''EUR USD''"
  have lp: "letters_plain std_env"
    by (simp add: letters_plain_def std_env_def)
  have "re_search std_env RE_PAIR (upper std_env ?t1) \<noteq> None"
    by code_simp
  then have hp: "has_pair std_env (upper std_env ?t1)"
    by (simp add: search_pair_None)
  have v: "extract_symbol std_env ?t1 = Some (ustr ''EURUSD-STD'')"
    by code_simp
  have "re_search std_env RE_PAIR (upper std_env ?t3) = None"
    by code_simp
  then have np: "\<not> has_pair std_env (upper std_env ?t3)"
    by (simp add: search_pair_None)
  have "re_search std_env RE_SIX (upper std_env ?t3) = None"
    by code_simp
  then have ns: "\<not> has_six std_env (upper std_env ?t3)"
    by (simp add: search_six_None)
  have "has_pair std_env (upper std_env ?t1) \<longrightarrow>
            (\<exists>a b. first_pair std_env (upper std_env ?t1) a b
               \<and> extract_symbol std_env ?t1 = Some (a @ b @ SYMBOL_POSTFIX std_env))"
    using extract_symbol_spec [OF lp, of ?t1] by (elim conjE)
  then have r1: "\<exists>a b. first_pair std_env (upper std_env ?t1) a b
               \<and> extract_symbol std_env ?t1 = Some (a @ b @ SYMBOL_POSTFIX std_env)"
    using hp by (rule mp)
  have "\<not> has_pair std_env (upper std_env ?t3) \<and> \<not> has_six std_env (upper std_env ?t3)
          \<longrightarrow> extract_symbol std_env ?t3 = None"
    using extract_symbol_spec [OF lp, of ?t3] by (elim conjE)
  then have r3: "extract_symbol std_env ?t3 = None"
    using conjI [OF np ns] by (rule mp)
  from lp hp r1 v np ns r3 show ?thesis by (intro conjI)
qed

end
